theory Spec2Isabelle
  imports Main "HOL-Library.AList" "HOL-Library.Multiset"
begin

section \<open>The song-guessing game server (server.js)\<close>

text \<open>
  A shallow embedding of the room and round engine of \<^verbatim>\<open>server.js\<close>: the option
  generator, the room registry, and the four socket handlers together with the deferred
  round advance.  Handlers are state transformers that also return the list of events
  they emit, in emission order.  Node runs each handler and each timer callback to
  completion, so a run of the server is a sequence of such steps.  Scanning the audio
  folder, serving static files and listening are not modelled; the scanned \<^verbatim>\<open>songs\<close>
  array is a parameter.
\<close>

subsection \<open>Data\<close>

text \<open>
  Socket identifiers, room identifiers, titles and names are JavaScript strings.  A song
  is \<^verbatim>\<open>{title, audioUrl}\<close>; the current question extends it by the index of the right
  option and the winner's socket (\<^verbatim>\<open>null\<close> is \<open>None\<close>).
\<close>

type_synonym socket_id = string
type_synonym room_id = string

record song =
  title :: string
  audioUrl :: string

record question = song +
  correctIndex :: int
  winnerSocketId :: "socket_id option"

record player =
  name :: string
  score :: nat

text \<open>The \<^verbatim>\<open>winner\<close> object of a \<^verbatim>\<open>roundResult\<close>: \<^verbatim>\<open>{socketId, name, score}\<close>.\<close>

record winner = player +
  socketId :: socket_id

text \<open>
  \<^verbatim>\<open>room.players\<close> is a plain object keyed by socket id.  Its keys are enumerated in
  insertion order (socket ids are never array indices), assigning to an existing key
  keeps the key's place, and \<^verbatim>\<open>delete\<close> removes the key: an association list with
  \<open>AList.update\<close> and \<open>AList.delete\<close>.
\<close>

type_synonym players = "(socket_id \<times> player) list"

record room =
  roomId :: room_id
  hostId :: "socket_id option"
  players :: players
  gameQuestions :: "song list"
  gameIndex :: nat
  currentQuestion :: "question option"
  roundActive :: bool

text \<open>
  What the server emits.  \<open>Emit t p\<close> is \<^verbatim>\<open>io.to(t).emit(...)\<close> with the payload as it
  is at the time of the call; the target \<open>t\<close> is a room id or, for \<open>answerResult\<close>, the
  id of the submitting socket.  Which sockets socket.io then delivers to is outside the
  model.  The payloads list their fields in the order of the source:
  \<open>roomState {roomId, hostId, players}\<close>, \<open>gameStart {total}\<close>,
  \<open>question {audioUrl, options, index, total}\<close>, \<open>answerResult {isCorrect}\<close>,
  \<open>roundResult {correctIndex, winner, players}\<close>, \<open>gameEnd {players}\<close>.
\<close>

datatype payload =
    RoomState room_id "socket_id option" players
  | GameStart nat
  | Question string "string list" nat nat
  | AnswerResult bool
  | RoundResult int winner players
  | GameEnd players

datatype emit = Emit string payload

text \<open>
  \<^verbatim>\<open>Math.random\<close> is the only source of nondeterminism.  It is an infinite sequence of
  raw draws; \<^verbatim>\<open>Math.floor(Math.random() * n)\<close> is a value below \<open>n\<close>, here the next
  draw reduced modulo \<open>n\<close>, so that every value below \<open>n\<close> can come out and no other.
\<close>

type_synonym rng = "nat \<Rightarrow> nat"

definition randomBelow :: "nat \<Rightarrow> rng \<Rightarrow> nat \<times> rng" where
  "randomBelow n g = (g 0 mod n, \<lambda>k. g (Suc k))"

text \<open>
  The server's state: the \<^verbatim>\<open>rooms\<close> map, \<^verbatim>\<open>socket.data.roomId\<close> of every socket
  (\<^verbatim>\<open>undefined\<close> is \<open>None\<close>), the room ids of the pending \<^verbatim>\<open>setTimeout\<close> callbacks, the
  oldest first (all have the same delay, so they fire in the order they were set), and
  the random source.  The \<^verbatim>\<open>songs\<close> array is filled once at start-up and is a parameter.
\<close>

record state =
  rooms :: "room_id \<rightharpoonup> room"
  socketData :: "socket_id \<Rightarrow> room_id option"
  timers :: "room_id list"
  rng :: rng

definition init :: "rng \<Rightarrow> state" where
  "init g = \<lparr>rooms = Map.empty, socketData = (\<lambda>_. None), timers = [], rng = g\<rparr>"

text \<open>JavaScript truthiness of a socket id slot: \<^verbatim>\<open>null\<close> and the empty string are falsy.\<close>

fun falsy :: "string option \<Rightarrow> bool" where
  "falsy None = True"
| "falsy (Some s) = (s = [])"

subsection \<open>shuffle and generateOptions\<close>

text \<open>
  \<^verbatim>\<open>for (let i = arr.length - 1; i > 0; i--) { j = floor(random() * (i + 1)); swap }\<close>.
  The destructuring swap reads both cells before it writes.
\<close>

fun shuffle_loop :: "nat \<Rightarrow> 'a list \<Rightarrow> rng \<Rightarrow> 'a list \<times> rng" where
  "shuffle_loop 0 arr g = (arr, g)"
| "shuffle_loop (Suc k) arr g =
     (let i = Suc k;
          (j, g') = randomBelow (i + 1) g
      in shuffle_loop k (arr[i := arr ! j, j := arr ! i]) g')"

definition shuffle :: "'a list \<Rightarrow> rng \<Rightarrow> 'a list \<times> rng" where
  "shuffle arr g = shuffle_loop (length arr - 1) arr g"

text \<open>\<^verbatim>\<open>Array.prototype.indexOf\<close>: the first index holding the value, or \<open>-1\<close>.\<close>

fun indexFrom :: "nat \<Rightarrow> 'a list \<Rightarrow> 'a \<Rightarrow> int" where
  "indexFrom k [] x = -1"
| "indexFrom k (y # ys) x = (if y = x then int k else indexFrom (Suc k) ys x)"

definition indexOf :: "'a list \<Rightarrow> 'a \<Rightarrow> int" where
  "indexOf xs x = indexFrom 0 xs x"

definition wrongTitles :: "song list \<Rightarrow> string \<Rightarrow> string list" where
  "wrongTitles songs correctTitle = filter (\<lambda>t. t \<noteq> correctTitle) (map title songs)"

definition generateOptions :: "song list \<Rightarrow> string \<Rightarrow> rng \<Rightarrow> (string list \<times> int) \<times> rng" where
  "generateOptions songs correctTitle g =
     (let (titles, g1) = shuffle (wrongTitles songs correctTitle) g;
          wrong = take 3 titles;
          (options, g2) = shuffle (correctTitle # wrong) g1
      in ((options, indexOf options correctTitle), g2))"

subsection \<open>The registry and the round controller\<close>

definition newRoom :: "room_id \<Rightarrow> room" where
  "newRoom r = \<lparr>roomId = r, hostId = None, players = [], gameQuestions = [],
                gameIndex = 0, currentQuestion = None, roundActive = False\<rparr>"

definition getOrCreateRoom :: "room_id \<Rightarrow> state \<Rightarrow> room \<times> state" where
  "getOrCreateRoom r s =
     (case rooms s r of
        None \<Rightarrow> (newRoom r, s\<lparr>rooms := (rooms s)(r \<mapsto> newRoom r)\<rparr>)
      | Some rm \<Rightarrow> (rm, s))"

definition startNextRound :: "song list \<Rightarrow> room_id \<Rightarrow> state \<Rightarrow> state \<times> emit list" where
  "startNextRound songs r s =
     (case rooms s r of
        None \<Rightarrow> (s, [])
      | Some rm \<Rightarrow>
          if gameIndex rm \<ge> length (gameQuestions rm)
          then (s, [Emit r (GameEnd (players rm))])
          else
            let sg = gameQuestions rm ! gameIndex rm;
                idx = gameIndex rm + 1;
                ((options, ci), g') = generateOptions songs (title sg) (rng s);
                q = \<lparr>title = title sg, audioUrl = audioUrl sg,
                     correctIndex = ci, winnerSocketId = None\<rparr>;
                rm' = rm\<lparr>gameIndex := idx, currentQuestion := Some q, roundActive := True\<rparr>
            in (s\<lparr>rooms := (rooms s)(r \<mapsto> rm'), rng := g'\<rparr>,
                [Emit r (Question (audioUrl sg) options idx (length (gameQuestions rm)))]))"

subsection \<open>The socket handlers\<close>

definition joinRoom :: "socket_id \<Rightarrow> room_id \<Rightarrow> string \<Rightarrow> state \<Rightarrow> state \<times> emit list" where
  "joinRoom sid r nm s =
     (let (rm, s1) = getOrCreateRoom r s;
          rm1 = (if falsy (hostId rm) then rm\<lparr>hostId := Some sid\<rparr> else rm);
          rm2 = rm1\<lparr>players := AList.update sid \<lparr>name = nm, score = 0\<rparr> (players rm1)\<rparr>
      in (s1\<lparr>rooms := (rooms s1)(r \<mapsto> rm2), socketData := (socketData s1)(sid := Some r)\<rparr>,
          [Emit r (RoomState r (hostId rm2) (players rm2))]))"

text \<open>\<^verbatim>\<open>rooms.get(socket.data.roomId)\<close>, with the room id it was found under.\<close>

definition socketRoom :: "state \<Rightarrow> socket_id \<Rightarrow> (room_id \<times> room) option" where
  "socketRoom s sid =
     (case socketData s sid of
        None \<Rightarrow> None
      | Some r \<Rightarrow> (case rooms s r of None \<Rightarrow> None | Some rm \<Rightarrow> Some (r, rm)))"

definition startGame :: "song list \<Rightarrow> socket_id \<Rightarrow> state \<Rightarrow> state \<times> emit list" where
  "startGame songs sid s =
     (case socketRoom s sid of
        None \<Rightarrow> (s, [])
      | Some (r, rm) \<Rightarrow>
          if hostId rm \<noteq> Some sid then (s, [])
          else
            let (shuffled, g') = shuffle songs (rng s);
                rm' = rm\<lparr>gameQuestions := take 10 shuffled, gameIndex := 0\<rparr>;
                s1 = s\<lparr>rooms := (rooms s)(r \<mapsto> rm'), rng := g'\<rparr>;
                (s2, out) = startNextRound songs r s1
            in (s2, Emit r (GameStart (length (gameQuestions rm'))) # out))"

definition answer :: "socket_id \<Rightarrow> int \<Rightarrow> state \<Rightarrow> state \<times> emit list" where
  "answer sid optionIndex s =
     (case socketRoom s sid of
        None \<Rightarrow> (s, [])
      | Some (r, rm) \<Rightarrow>
          if \<not> roundActive rm then (s, [])
          else
            (case currentQuestion rm of
               None \<Rightarrow> (s, [])
             | Some q \<Rightarrow>
                 (case map_of (players rm) sid of
                    None \<Rightarrow> (s, [])
                  | Some p \<Rightarrow>
                      let isCorrect = (optionIndex = correctIndex q);
                          res = Emit sid (AnswerResult isCorrect)
                      in if \<not> falsy (winnerSocketId q) then (s, [res])
                         else if isCorrect then
                           let q' = q\<lparr>winnerSocketId := Some sid\<rparr>;
                               p' = p\<lparr>score := score p + 1\<rparr>;
                               rm' = rm\<lparr>currentQuestion := Some q', roundActive := False,
                                        players := AList.update sid p' (players rm)\<rparr>
                           in (s\<lparr>rooms := (rooms s)(r \<mapsto> rm'), timers := timers s @ [r]\<rparr>,
                               [res,
                                Emit r (RoundResult (correctIndex q)
                                  \<lparr>name = name p', score = score p', socketId = sid\<rparr>
                                  (players rm'))])
                         else (s, [res]))))"

definition disconnect :: "socket_id \<Rightarrow> state \<Rightarrow> state \<times> emit list" where
  "disconnect sid s =
     (case socketRoom s sid of
        None \<Rightarrow> (s, [])
      | Some (r, rm) \<Rightarrow>
          let ps = AList.delete sid (players rm);
              h = (if hostId rm = Some sid
                   then (case map fst ps of [] \<Rightarrow> None | k # _ \<Rightarrow> Some k)
                   else hostId rm);
              rm' = rm\<lparr>players := ps, hostId := h\<rparr>
          in if length (map fst ps) = 0
             then (s\<lparr>rooms := (rooms s)(r := None)\<rparr>, [])
             else (s\<lparr>rooms := (rooms s)(r \<mapsto> rm')\<rparr>, [Emit r (RoomState r h ps)]))"

text \<open>The oldest pending \<^verbatim>\<open>setTimeout\<close> callback fires: \<^verbatim>\<open>startNextRound(roomId)\<close>.\<close>

definition timerFire :: "song list \<Rightarrow> state \<Rightarrow> state \<times> emit list" where
  "timerFire songs s =
     (case timers s of
        [] \<Rightarrow> (s, [])
      | r # ts \<Rightarrow> startNextRound songs r (s\<lparr>timers := ts\<rparr>))"

subsection \<open>Event sequences\<close>

datatype event =
    JoinRoom socket_id room_id string
  | StartGame socket_id
  | Answer socket_id int
  | Disconnect socket_id
  | TimerFire

fun step :: "song list \<Rightarrow> event \<Rightarrow> state \<Rightarrow> state \<times> emit list" where
  "step songs (JoinRoom sid r nm) s = joinRoom sid r nm s"
| "step songs (StartGame sid) s = startGame songs sid s"
| "step songs (Answer sid i) s = answer sid i s"
| "step songs (Disconnect sid) s = disconnect sid s"
| "step songs TimerFire s = timerFire songs s"

fun run :: "song list \<Rightarrow> event list \<Rightarrow> state \<Rightarrow> state \<times> emit list" where
  "run songs [] s = (s, [])"
| "run songs (e # es) s =
     (let (s1, o1) = step songs e s;
          (s2, o2) = run songs es s1
      in (s2, o1 @ o2))"

subsection \<open>Scenarios\<close>

text \<open>A bank of four songs, and states reached from the empty registry by the handlers.\<close>

definition demoSongs :: "song list" where
  "demoSongs =
     [\<lparr>title = ''A'', audioUrl = ''/audio/A.mp3''\<rparr>, \<lparr>title = ''B'', audioUrl = ''/audio/B.mp3''\<rparr>,
      \<lparr>title = ''C'', audioUrl = ''/audio/C.mp3''\<rparr>, \<lparr>title = ''D'', audioUrl = ''/audio/D.mp3''\<rparr>]"

text \<open>A bank in which three files have the same title.\<close>

definition dupSongs :: "song list" where
  "dupSongs = map (\<lambda>t. \<lparr>title = t, audioUrl = ''/audio/'' @ t @ ''.mp3''\<rparr>)
     [''A'', ''B'', ''B'', ''B'', ''C'', ''D'']"

text \<open>The only player wins the first round and leaves before the timer fires.\<close>

definition abandoned :: state where
  "abandoned = fst (run demoSongs
     [JoinRoom ''a'' ''R'' ''ann'', StartGame ''a'', Answer ''a'' 3, Disconnect ''a'']
     (init (\<lambda>_. 0)))"

text \<open>Two players in a room, no game started; \<open>a\<close> is the host.\<close>

definition lobby :: state where
  "lobby = fst (run demoSongs
     [JoinRoom ''a'' ''R'' ''ann'', JoinRoom ''b'' ''R'' ''bob''] (init (\<lambda>_. 0)))"

text \<open>Two players; \<open>a\<close> has won the first round, the timer is pending.\<close>

definition won1 :: state where
  "won1 = fst (run demoSongs
     [JoinRoom ''a'' ''R'' ''ann'', JoinRoom ''b'' ''R'' ''bob'', StartGame ''a'', Answer ''a'' 3]
     (init (\<lambda>_. 0)))"

text \<open>
  Socket \<open>b\<close> created room \<open>R\<close> and is its host, \<open>a\<close> joined \<open>R\<close>, then \<open>b\<close> joined
  room \<open>Q\<close> as well.
\<close>

definition hostElsewhere :: state where
  "hostElsewhere = fst (run demoSongs
     [JoinRoom ''b'' ''R'' ''bob'', JoinRoom ''a'' ''R'' ''ann'', JoinRoom ''b'' ''Q'' ''bob'']
     (init (\<lambda>_. 0)))"

text \<open>Socket \<open>b\<close> joined room \<open>R\<close> and then room \<open>Q\<close>.\<close>

definition twoRooms :: state where
  "twoRooms = fst (run demoSongs
     [JoinRoom ''a'' ''R'' ''ann'', JoinRoom ''b'' ''R'' ''bob'', JoinRoom ''b'' ''Q'' ''bob'',
      JoinRoom ''c'' ''Q'' ''cy''] (init (\<lambda>_. 0)))"

text \<open>A bank with a single song: a game has one round.\<close>

definition oneSong :: "song list" where
  "oneSong = [\<lparr>title = ''A'', audioUrl = ''/audio/A.mp3''\<rparr>]"

text \<open>A game played to its end: the round is won and the timer has fired.\<close>

definition finished :: state where
  "finished = fst (run oneSong
     [JoinRoom ''a'' ''R'' ''ann'', StartGame ''a'', Answer ''a'' 0, TimerFire] (init (\<lambda>_. 0)))"

text \<open>
  The host wins the only round, starts a new game before the timer fires, and wins its
  only round too: two timers are pending.
\<close>

definition replayed :: state where
  "replayed = fst (run oneSong
     [JoinRoom ''a'' ''R'' ''ann'', StartGame ''a'', Answer ''a'' 0, StartGame ''a'', Answer ''a'' 0]
     (init (\<lambda>_. 0)))"

subsection \<open>The round invariant\<close>

text \<open>
  A room's \<open>roundActive\<close> flag is set exactly when the room has a current question with
  no winner recorded.
\<close>

definition room_ok :: "room \<Rightarrow> bool" where
  "room_ok rm =
     (roundActive rm =
        (case currentQuestion rm of None \<Rightarrow> False | Some q \<Rightarrow> winnerSocketId q = None))"

definition rooms_ok :: "(room_id \<rightharpoonup> room) \<Rightarrow> bool" where
  "rooms_ok m = (\<forall>r rm. m r = Some rm \<longrightarrow> room_ok rm)"

text \<open>The event list holds a \<open>question\<close> event for room \<open>r\<close>.\<close>

fun isQuestion :: "room_id \<Rightarrow> emit \<Rightarrow> bool" where
  "isQuestion r (Emit t (Question u opts i n)) = (t = r)"
| "isQuestion r e = False"

text \<open>The room has a current question without a winner.\<close>

definition openRound :: "room \<Rightarrow> bool" where
  "openRound rm =
     (case currentQuestion rm of None \<Rightarrow> False | Some q \<Rightarrow> winnerSocketId q = None)"

text \<open>
  How the round record of a room may differ before (\<open>rm\<close>) and after (\<open>rm'\<close>) one event
  \<open>e\<close> that emitted \<open>out\<close>: it is unchanged; or it had no winner and the event is an answer
  with the right index, whose sender is now the winner; or the event is a \<open>startGame\<close> or
  a timer that announced a new round to the room, whose record has no winner.
\<close>

fun roundStep :: "room_id \<Rightarrow> event \<Rightarrow> emit list \<Rightarrow> room \<Rightarrow> room \<Rightarrow> bool" where
  "roundStep r (Answer sid i) out rm rm' =
     (currentQuestion rm' = currentQuestion rm \<or>
      (case currentQuestion rm of
         None \<Rightarrow> False
       | Some q \<Rightarrow> winnerSocketId q = None \<and> i = correctIndex q \<and>
                   currentQuestion rm' = Some (q\<lparr>winnerSocketId := Some sid\<rparr>)))"
| "roundStep r (StartGame sid) out rm rm' =
     (currentQuestion rm' = currentQuestion rm \<or> (list_ex (isQuestion r) out \<and> openRound rm'))"
| "roundStep r TimerFire out rm rm' =
     (currentQuestion rm' = currentQuestion rm \<or> (list_ex (isQuestion r) out \<and> openRound rm'))"
| "roundStep r e out rm rm' = (currentQuestion rm' = currentQuestion rm)"

subsection \<open>Stale entries\<close>

text \<open>\<open>joins sid e\<close>: the event is a \<open>joinRoom\<close> of socket \<open>sid\<close>.\<close>

fun joins :: "socket_id \<Rightarrow> event \<Rightarrow> bool" where
  "joins sid (JoinRoom sid' r nm) = (sid' = sid)"
| "joins sid e = False"

text \<open>Room \<open>r\<close> exists and has a player entry for \<open>sid\<close>.\<close>

definition hasEntry :: "state \<Rightarrow> room_id \<Rightarrow> socket_id \<Rightarrow> bool" where
  "hasEntry s r sid =
     (case rooms s r of None \<Rightarrow> False | Some rm \<Rightarrow> map_of (players rm) sid \<noteq> None)"

subsection \<open>Observing the emitted events\<close>

fun isGameStart :: "room_id \<Rightarrow> emit \<Rightarrow> bool" where
  "isGameStart r (Emit t (GameStart n)) = (t = r)"
| "isGameStart r e = False"

text \<open>
  A monitor for the \<open>question\<close> events of room \<open>r\<close>.  It reads the emitted events in
  order and keeps \<open>(n, ttl)\<close>: the number of \<open>question\<close> events sent to the room since
  its last \<open>gameStart\<close>, and the total \<open>ttl\<close> which that \<open>gameStart\<close> announced.  Every
  \<open>question\<close> event must carry the index \<open>n + 1\<close> and that total.  \<open>track\<close> is the
  monitor's state after a list of events.
\<close>

fun observe :: "room_id \<Rightarrow> nat \<times> nat \<Rightarrow> emit \<Rightarrow> nat \<times> nat" where
  "observe r (n, ttl) (Emit t (GameStart tot)) = (if t = r then (0, tot) else (n, ttl))"
| "observe r (n, ttl) (Emit t (Question u opts idx tot)) =
     (if t = r then (n + 1, ttl) else (n, ttl))"
| "observe r (n, ttl) e = (n, ttl)"

fun accepts :: "room_id \<Rightarrow> nat \<times> nat \<Rightarrow> emit \<Rightarrow> bool" where
  "accepts r (n, ttl) (Emit t (Question u opts idx tot)) =
     (if t = r then idx = n + 1 \<and> tot = ttl else True)"
| "accepts r (n, ttl) e = True"

fun track :: "room_id \<Rightarrow> nat \<times> nat \<Rightarrow> emit list \<Rightarrow> nat \<times> nat" where
  "track r c [] = c"
| "track r c (e # out) = track r (observe r c e) out"

fun questionsOk :: "room_id \<Rightarrow> nat \<times> nat \<Rightarrow> emit list \<Rightarrow> bool" where
  "questionsOk r c [] = True"
| "questionsOk r c (e # out) = (accepts r c e \<and> questionsOk r (observe r c e) out)"

text \<open>The game of a room is exhausted: the cursor has reached the end of its questions.\<close>

definition exhausted :: "room \<Rightarrow> bool" where
  "exhausted rm = (length (gameQuestions rm) \<le> gameIndex rm)"

text \<open>
  The monitor's state \<open>c\<close> agrees with room \<open>r\<close>: the room is missing, or its game is
  exhausted, or its cursor and the length of its questions are the monitor's.
\<close>

definition trackInv :: "room_id \<Rightarrow> nat \<times> nat \<Rightarrow> state \<Rightarrow> bool" where
  "trackInv r c s =
     (case rooms s r of
        None \<Rightarrow> True
      | Some rm \<Rightarrow> exhausted rm \<or> (gameIndex rm = fst c \<and> length (gameQuestions rm) = snd c))"

text \<open>Room \<open>r\<close> is missing or its game is exhausted.\<close>

definition noGameLeft :: "room_id \<Rightarrow> state \<Rightarrow> bool" where
  "noGameLeft r s = (case rooms s r of None \<Rightarrow> True | Some rm \<Rightarrow> exhausted rm)"


section \<open>Properties\<close>

subsection \<open>The option generator\<close>

lemma shuffle_loop_mset:
  "k < length arr \<or> k = 0 \<Longrightarrow> mset (fst (shuffle_loop k arr g)) = mset arr"
proof (induction k arbitrary: arr g)
  case 0
  then show ?case by simp
next
  case (Suc k)
  then have len: "Suc k < length arr" by simp
  let ?j = "g 0 mod (Suc k + 1)"
  have "?j < Suc k + 1" by simp
  with len have j: "?j < length arr" by linarith
  let ?arr = "arr[Suc k := arr ! ?j, ?j := arr ! Suc k]"
  have "mset ?arr = mset arr" using mset_swap [OF j len] .
  moreover have "k < length ?arr" using len by simp
  ultimately show ?case using Suc.IH [of ?arr] by (simp add: randomBelow_def Let_def)
qed

lemma shuffle_mset: "mset (fst (shuffle arr g)) = mset arr"
  unfolding shuffle_def by (rule shuffle_loop_mset) (cases arr; simp)

lemma indexFrom_found:
  "x \<in> set xs \<Longrightarrow>
     int k \<le> indexFrom k xs x \<and> nat (indexFrom k xs x) - k < length xs \<and>
     xs ! (nat (indexFrom k xs x) - k) = x"
proof (induction xs arbitrary: k)
  case Nil
  then show ?case by simp
next
  case (Cons y ys)
  show ?case
  proof (cases "y = x")
    case True
    then show ?thesis by simp
  next
    case False
    with Cons.prems have "x \<in> set ys" by simp
    from Cons.IH [OF this, of "Suc k"] False show ?thesis
      by (auto simp: Suc_diff_le nat_le_iff)
  qed
qed

lemma indexOf_found:
  "x \<in> set xs \<Longrightarrow> 0 \<le> indexOf xs x \<and> nat (indexOf xs x) < length xs \<and> xs ! nat (indexOf xs x) = x"
  using indexFrom_found [of x xs 0] by (simp add: indexOf_def)

lemma wrongTitles_set: "set (wrongTitles songs c) = title ` set songs - {c}"
  by (auto simp: wrongTitles_def)

lemma generateOptions_unfold:
  assumes "generateOptions songs c g = ((options, ci), g')"
  shows "\<exists>titles. mset titles = mset (wrongTitles songs c) \<and>
           mset options = mset (c # take 3 titles) \<and> ci = indexOf options c"
proof -
  obtain titles g1 where t: "shuffle (wrongTitles songs c) g = (titles, g1)"
    by (cases "shuffle (wrongTitles songs c) g")
  obtain opts g2 where p: "shuffle (c # take 3 titles) g1 = (opts, g2)"
    by (cases "shuffle (c # take 3 titles) g1")
  from assms t p have eq: "options = opts" "ci = indexOf opts c"
    by (auto simp: generateOptions_def Let_def)
  have "mset titles = mset (wrongTitles songs c)"
    using shuffle_mset [of "wrongTitles songs c" g] t by simp
  moreover have "mset opts = mset (c # take 3 titles)"
    using shuffle_mset [of "c # take 3 titles" g1] p by simp
  ultimately show ?thesis using eq by blast
qed



text \<open>
  C3, as the code has it.  For every bank, correct title and random source,
  \<open>generateOptions\<close> returns at most 4 options that contain the correct title exactly
  once, with \<open>correctIndex\<close> the position of the correct title, and every option is the
  correct title or a title of the bank.  A bank with at least 4 different titles gives
  exactly 4 options.  The options are pairwise distinct when the titles of the bank are
  pairwise distinct (the generator does not remove duplicates).  With fewer than 3 wrong
  candidates the options are the correct title and all the wrong candidates, fewer than 4.
\<close>

theorem generateOptions_spec:
  assumes "generateOptions songs c g = ((options, ci), g')"
  shows "length options \<le> 4
    \<and> count_list options c = 1
    \<and> 0 \<le> ci \<and> nat ci < length options \<and> options ! nat ci = c
    \<and> set options \<subseteq> insert c (title ` set songs)
    \<and> (4 \<le> card (title ` set songs) \<longrightarrow> length options = 4)
    \<and> (distinct (map title songs) \<longrightarrow> distinct options)
    \<and> (length (wrongTitles songs c) < 3 \<longrightarrow>
         mset options = mset (c # wrongTitles songs c) \<and> length options < 4)"
proof -
  from generateOptions_unfold [OF assms] obtain titles where
    t: "mset titles = mset (wrongTitles songs c)" and
    o: "mset options = mset (c # take 3 titles)" and
    ci: "ci = indexOf options c" by blast
  have st: "set titles = title ` set songs - {c}"
    using mset_eq_setD [OF t] by (simp add: wrongTitles_set)
  have lt: "length titles = length (wrongTitles songs c)" using mset_eq_length [OF t] .
  have lo: "length options = Suc (min (length titles) 3)"
    using mset_eq_length [OF o] by simp
  have so: "set options = insert c (set (take 3 titles))"
    using mset_eq_setD [OF o] by simp
  have 1: "length options \<le> 4" using lo by simp
  have "c \<notin> set (take 3 titles)" using st by (auto dest: in_set_takeD)
  then have "count_list (c # take 3 titles) c = 1" by simp
  then have 2: "count_list options c = 1"
    using mset_eq_length_filter [OF o, of c] by simp
  have "c \<in> set options" using so by simp
  from indexOf_found [OF this] ci
  have 3: "0 \<le> ci \<and> nat ci < length options \<and> options ! nat ci = c" by simp
  have 4: "set options \<subseteq> insert c (title ` set songs)"
    using so st by (auto dest: in_set_takeD)
  have 5: "length options = 4" if "4 \<le> card (title ` set songs)"
  proof -
    have "card (title ` set songs - {c}) \<ge> 3"
      using that by (simp add: card_Diff_singleton_if) linarith
    then have "card (set titles) \<ge> 3" using st by simp
    then have "length titles \<ge> 3" using card_length [of titles] by linarith
    then show ?thesis using lo by simp
  qed
  have 6: "distinct options" if "distinct (map title songs)"
  proof -
    from that have "distinct (wrongTitles songs c)" by (simp add: wrongTitles_def)
    then have "distinct titles" using mset_eq_imp_distinct_iff [OF t] by simp
    then have "distinct (c # take 3 titles)"
      using \<open>c \<notin> set (take 3 titles)\<close> by simp
    then show ?thesis using mset_eq_imp_distinct_iff [OF o] by simp
  qed
  have 7: "mset options = mset (c # wrongTitles songs c) \<and> length options < 4"
    if "length (wrongTitles songs c) < 3"
  proof -
    from that lt have "take 3 titles = titles" by simp
    then show ?thesis using o t lo lt that by simp
  qed
  from 1 2 3 4 5 6 7 show ?thesis by blast
qed

theorem generateOptions_spec_witness:
  "distinct (map title demoSongs) \<and> 4 \<le> card (title ` set demoSongs) \<and>
   fst (generateOptions demoSongs ''B'' (\<lambda>_. 0)) = ([''C'', ''D'', ''A'', ''B''], 3) \<and>
   length (fst (fst (generateOptions demoSongs ''B'' (\<lambda>_. 0)))) = 4 \<and>
   distinct (fst (fst (generateOptions demoSongs ''B'' (\<lambda>_. 0))))"
proof -
  have d: "distinct (map title demoSongs)" by code_simp
  have c: "4 \<le> card (title ` set demoSongs)" by code_simp
  have v: "fst (generateOptions demoSongs ''B'' (\<lambda>_. 0)) = ([''C'', ''D'', ''A'', ''B''], 3)"
    by code_simp
  have "generateOptions demoSongs ''B'' (\<lambda>_. 0) =
          ((fst (fst (generateOptions demoSongs ''B'' (\<lambda>_. 0))),
            snd (fst (generateOptions demoSongs ''B'' (\<lambda>_. 0)))),
           snd (generateOptions demoSongs ''B'' (\<lambda>_. 0)))" by simp
  from generateOptions_spec [OF this] d c v show ?thesis by blast
qed


text \<open>
  C3 as stated fails on a bank with repeated titles: the bank below has the 4 different
  titles A, B, C, D, and the options generated for A hold B twice.
\<close>

theorem generateOptions_duplicates:
  "4 \<le> card (title ` set dupSongs) \<and>
   fst (generateOptions dupSongs ''A'' (\<lambda>_. 0)) = ([''B'', ''B'', ''C'', ''A''], 3) \<and>
   \<not> distinct (fst (fst (generateOptions dupSongs ''A'' (\<lambda>_. 0))))"
  by code_simp

subsection \<open>Every handler keeps the round invariant\<close>

lemma rooms_ok_upd: "rooms_ok m \<Longrightarrow> room_ok rm \<Longrightarrow> rooms_ok (m(r \<mapsto> rm))"
  by (simp add: rooms_ok_def)

lemma rooms_ok_del: "rooms_ok m \<Longrightarrow> rooms_ok (m(r := None))"
  by (simp add: rooms_ok_def)

lemma rooms_okD: "rooms_ok m \<Longrightarrow> m r = Some rm \<Longrightarrow> room_ok rm"
  by (simp add: rooms_ok_def)

lemma socketRoomD: "socketRoom s sid = Some (r, rm) \<Longrightarrow> rooms s r = Some rm"
  by (simp add: socketRoom_def split: option.splits)

lemma startNextRound_absent: "rooms s r = None \<Longrightarrow> startNextRound songs r s = (s, [])"
  by (simp add: startNextRound_def)

lemma startNextRound_ok: 
  assumes "rooms_ok (rooms s)" shows "rooms_ok (rooms (fst (startNextRound songs r s)))"
proof (cases "rooms s r")
  case None then show ?thesis using assms by (simp add: startNextRound_def)
next
  case (Some rm)
  show ?thesis using assms Some
    by (auto simp: startNextRound_def Let_def room_ok_def split: prod.splits intro!: rooms_ok_upd)
qed

lemma joinRoom_ok: 
  assumes "rooms_ok (rooms s)" shows "rooms_ok (rooms (fst (joinRoom sid r nm s)))"
proof (cases "rooms s r")
  case None then show ?thesis using assms 
    by (auto simp: joinRoom_def getOrCreateRoom_def newRoom_def room_ok_def intro!: rooms_ok_upd)
next
  case (Some rm)
  with assms have "room_ok rm" by (auto dest: rooms_okD)
  then show ?thesis using assms Some
    by (auto simp: joinRoom_def getOrCreateRoom_def room_ok_def intro!: rooms_ok_upd)
qed

lemma startGame_ok: 
  assumes "rooms_ok (rooms s)" shows "rooms_ok (rooms (fst (startGame songs sid s)))"
proof (cases "socketRoom s sid")
  case None then show ?thesis using assms by (simp add: startGame_def)
next
  case (Some p)
  obtain r rm where p: "p = (r, rm)" by (cases p)
  have rm: "room_ok rm" using assms Some p by (auto dest: socketRoomD rooms_okD)
  show ?thesis 
  proof (cases "hostId rm = Some sid")
    case False then show ?thesis using assms Some p by (simp add: startGame_def)
  next
    case True
    obtain shuffled g' where sh: "shuffle songs (rng s) = (shuffled, g')" by (cases "shuffle songs (rng s)")
    let ?s1 = "s\<lparr>rooms := (rooms s)(r \<mapsto> rm\<lparr>gameQuestions := take 10 shuffled, gameIndex := 0\<rparr>), rng := g'\<rparr>"
    have "rooms_ok (rooms ?s1)" using assms rm by (auto simp: room_ok_def intro!: rooms_ok_upd)
    from startNextRound_ok[OF this, of songs r] show ?thesis
      using Some p True sh by (simp add: startGame_def Let_def split_beta)
  qed
qed

lemma answer_ok: 
  assumes "rooms_ok (rooms s)" shows "rooms_ok (rooms (fst (answer sid i s)))"
proof (cases "socketRoom s sid")
  case None then show ?thesis using assms by (simp add: answer_def)
next
  case (Some p)
  obtain r rm where p: "p = (r, rm)" by (cases p)
  show ?thesis using assms Some p
    by (auto simp: answer_def Let_def room_ok_def split: option.splits intro!: rooms_ok_upd)
qed

lemma disconnect_ok: 
  assumes "rooms_ok (rooms s)" shows "rooms_ok (rooms (fst (disconnect sid s)))"
proof (cases "socketRoom s sid")
  case None then show ?thesis using assms by (simp add: disconnect_def)
next
  case (Some p)
  obtain r rm where p: "p = (r, rm)" by (cases p)
  have rm: "room_ok rm" using assms Some p by (auto dest: socketRoomD rooms_okD)
  show ?thesis using assms Some p rm
    by (auto simp: disconnect_def Let_def room_ok_def intro!: rooms_ok_upd rooms_ok_del)
qed

lemma timerFire_ok: 
  assumes "rooms_ok (rooms s)" shows "rooms_ok (rooms (fst (timerFire songs s)))"
proof (cases "timers s")
  case Nil then show ?thesis using assms by (simp add: timerFire_def)
next
  case (Cons r ts)
  have "rooms_ok (rooms (s\<lparr>timers := ts\<rparr>))" using assms by simp
  from startNextRound_ok[OF this, of songs r] show ?thesis using Cons by (simp add: timerFire_def)
qed

lemma step_ok: "rooms_ok (rooms s) \<Longrightarrow> rooms_ok (rooms (fst (step songs e s)))"
  by (cases e) (simp_all add: joinRoom_ok startGame_ok answer_ok disconnect_ok timerFire_ok)

lemma run_ok: "rooms_ok (rooms s) \<Longrightarrow> rooms_ok (rooms (fst (run songs es s)))"
proof (induction es arbitrary: s)
  case Nil then show ?case by simp
next
  case (Cons e es)
  from Cons.IH[OF step_ok[OF Cons.prems, of songs e]] show ?case
    by (simp add: split_beta Let_def)
qed

lemma init_ok: "rooms_ok (rooms (init g))"
  by (simp add: rooms_ok_def init_def)

subsection \<open>Rounds and winners\<close>

lemma startNextRound_round:
  assumes "rooms s r = Some rm" and "startNextRound songs r0 s = (s', out)"
    and "rooms s' r = Some rm'"
  shows "currentQuestion rm' = currentQuestion rm \<or> (list_ex (isQuestion r) out \<and> openRound rm')"
proof (cases "rooms s r0")
  case None
  then show ?thesis using assms by (simp add: startNextRound_def)
next
  case (Some rm0)
  show ?thesis
  proof (cases "r0 = r")
    case False
    then show ?thesis using assms Some
      by (auto simp: startNextRound_def Let_def split: if_splits prod.splits)
  next
    case True
    then show ?thesis using assms Some
      by (auto simp: startNextRound_def Let_def openRound_def split: if_splits prod.splits)
  qed
qed

lemma joinRoom_round:
  assumes "rooms s r = Some rm" and "rooms (fst (joinRoom sid r0 nm s)) r = Some rm'"
  shows "currentQuestion rm' = currentQuestion rm"
  using assms
  by (cases "r0 = r") (auto simp: joinRoom_def getOrCreateRoom_def Let_def split: option.splits)

lemma disconnect_round:
  assumes "rooms s r = Some rm" and "rooms (fst (disconnect sid s)) r = Some rm'"
  shows "currentQuestion rm' = currentQuestion rm"
proof (cases "socketRoom s sid")
  case None then show ?thesis using assms by (simp add: disconnect_def)
next
  case (Some p)
  obtain r0 rm0 where p: "p = (r0, rm0)" by (cases p)
  have "rooms s r0 = Some rm0" using Some p by (simp add: socketRoomD)
  then show ?thesis using assms Some p
    by (cases "r0 = r") (auto simp: disconnect_def Let_def split: if_splits)
qed

lemma answer_round:
  assumes "rooms s r = Some rm" and "room_ok rm" and "rooms (fst (answer sid i s)) r = Some rm'"
  shows "roundStep r (Answer sid i) (snd (answer sid i s)) rm rm'"
proof (cases "socketRoom s sid")
  case None then show ?thesis using assms by (simp add: answer_def)
next
  case (Some p)
  obtain r0 rm0 where p: "p = (r0, rm0)" by (cases p)
  have r0: "rooms s r0 = Some rm0" using Some p by (simp add: socketRoomD)
  show ?thesis
  proof (cases "r0 = r")
    case False
    then show ?thesis using assms Some p
      by (auto simp: answer_def Let_def split: if_splits option.splits)
  next
    case True
    with r0 assms(1) have "rm0 = rm" by simp
    then show ?thesis using assms Some p True
      by (auto simp: answer_def Let_def room_ok_def split: if_splits option.splits)
  qed
qed

lemma startGame_round:
  assumes "rooms s r = Some rm" and "rooms (fst (startGame songs sid s)) r = Some rm'"
  shows "currentQuestion rm' = currentQuestion rm \<or>
         (list_ex (isQuestion r) (snd (startGame songs sid s)) \<and> openRound rm')"
proof (cases "socketRoom s sid")
  case None then show ?thesis using assms by (simp add: startGame_def)
next
  case (Some p)
  obtain r0 rm0 where p: "p = (r0, rm0)" by (cases p)
  have r0: "rooms s r0 = Some rm0" using Some p by (simp add: socketRoomD)
  show ?thesis
  proof (cases "hostId rm0 = Some sid")
    case False then show ?thesis using assms Some p by (simp add: startGame_def)
  next
    case True
    obtain shuffled g' where sh: "shuffle songs (rng s) = (shuffled, g')"
      by (cases "shuffle songs (rng s)")
    let ?rm1 = "rm0\<lparr>gameQuestions := take 10 shuffled, gameIndex := 0\<rparr>"
    let ?s1 = "s\<lparr>rooms := (rooms s)(r0 \<mapsto> ?rm1), rng := g'\<rparr>"
    obtain s2 out where nx: "startNextRound songs r0 ?s1 = (s2, out)"
      by (cases "startNextRound songs r0 ?s1")
    have eq: "startGame songs sid s = (s2, Emit r0 (GameStart (length (take 10 shuffled))) # out)"
      using Some p True sh nx by (simp add: startGame_def Let_def)
    obtain rm1 where rm1: "rooms ?s1 r = Some rm1" "currentQuestion rm1 = currentQuestion rm"
      using assms(1) r0 by (cases "r0 = r") auto
    have "rooms s2 r = Some rm'" using assms(2) eq by simp
    from startNextRound_round [OF rm1(1) nx this] rm1(2) eq show ?thesis by auto
  qed
qed

lemma timerFire_round:
  assumes "rooms s r = Some rm" and "rooms (fst (timerFire songs s)) r = Some rm'"
  shows "currentQuestion rm' = currentQuestion rm \<or>
         (list_ex (isQuestion r) (snd (timerFire songs s)) \<and> openRound rm')"
proof (cases "timers s")
  case Nil then show ?thesis using assms by (simp add: timerFire_def)
next
  case (Cons r0 ts)
  obtain s2 out where nx: "startNextRound songs r0 (s\<lparr>timers := ts\<rparr>) = (s2, out)"
    by (cases "startNextRound songs r0 (s\<lparr>timers := ts\<rparr>)")
  have eq: "timerFire songs s = (s2, out)" using Cons nx by (simp add: timerFire_def)
  have 1: "rooms (s\<lparr>timers := ts\<rparr>) r = Some rm" using assms(1) by simp
  have "rooms s2 r = Some rm'" using assms(2) eq by simp
  from startNextRound_round [OF 1 nx this] eq show ?thesis by simp
qed

lemma step_round:
  assumes "rooms s r = Some rm" and "room_ok rm" and "rooms (fst (step songs e s)) r = Some rm'"
  shows "roundStep r e (snd (step songs e s)) rm rm'"
proof (cases e)
  case (JoinRoom sid r0 nm)
  then show ?thesis using joinRoom_round [OF assms(1), of sid r0 nm rm'] assms(3) by simp
next
  case (StartGame sid)
  then show ?thesis using startGame_round [OF assms(1), of songs sid rm'] assms(3) by simp
next
  case (Answer sid i)
  then show ?thesis using answer_round [OF assms(1,2), of sid i rm'] assms(3) by simp
next
  case (Disconnect sid)
  then show ?thesis using disconnect_round [OF assms(1), of sid rm'] assms(3) by simp
next
  case TimerFire
  then show ?thesis using timerFire_round [OF assms(1), of songs rm'] assms(3) by simp
qed


text \<open>
  C2.  In every state that the handlers reach from the empty registry, every room
  satisfies the round invariant: \<open>roundActive\<close> is set exactly when there is a current
  question with no winner recorded.  And whatever event comes next, the round record of a
  room that is still there afterwards is unchanged, or it had no winner and the sender of
  an answer with the right index is now its winner, or a new round without a winner was
  announced by a \<open>startGame\<close> or a timer.  So a recorded winner is never replaced: the
  winner of a round goes from none to one socket at most once.
\<close>

theorem round_invariant:
  assumes "s = fst (run songs es (init g))" and "rooms s r = Some rm"
  shows "room_ok rm \<and>
         (\<forall>e rm'. rooms (fst (step songs e s)) r = Some rm' \<longrightarrow>
                   roundStep r e (snd (step songs e s)) rm rm')"
proof -
  have "rooms_ok (rooms s)" unfolding assms(1) using init_ok by (rule run_ok)
  then have ok: "room_ok rm" using assms(2) by (rule rooms_okD)
  then show ?thesis using step_round [OF assms(2) ok] by blast
qed

theorem round_invariant_witness:
  "\<exists>rm rm'. rooms won1 ''R'' = Some rm \<and>
      rooms (fst (step demoSongs (Answer ''b'' 3) won1)) ''R'' = Some rm' \<and>
      room_ok rm \<and> \<not> roundActive rm \<and>
      roundStep ''R'' (Answer ''b'' 3) (snd (step demoSongs (Answer ''b'' 3) won1)) rm rm'"
proof -
  have "rooms won1 ''R'' \<noteq> None" by code_simp
  then obtain rm where rm: "rooms won1 ''R'' = Some rm" by blast
  have "rooms (fst (step demoSongs (Answer ''b'' 3) won1)) ''R'' \<noteq> None" by code_simp
  then obtain rm' where rm': "rooms (fst (step demoSongs (Answer ''b'' 3) won1)) ''R'' = Some rm'"
    by blast
  have "map_option roundActive (rooms won1 ''R'') = Some False" by code_simp
  then have na: "\<not> roundActive rm" using rm by simp
  from round_invariant [OF won1_def rm] rm rm' na show ?thesis by blast
qed


text \<open>
  C1, as the code has it.  In every state that the handlers reach from the empty
  registry, an answer whose sender's room exists and has a current question with a winner
  recorded changes nothing and emits nothing, not even an \<open>answerResult\<close>: recording the
  winner cleared \<open>roundActive\<close>, and the handler returns at its first check.
\<close>

theorem late_answer_dropped:
  assumes "s = fst (run songs es (init g))" and "socketRoom s sid = Some (r, rm)"
    and "currentQuestion rm = Some q" and "winnerSocketId q \<noteq> None"
  shows "answer sid i s = (s, [])"
proof -
  have "rooms_ok (rooms s)" unfolding assms(1) using init_ok by (rule run_ok)
  moreover have "rooms s r = Some rm" using assms(2) by (rule socketRoomD)
  ultimately have "room_ok rm" by (rule rooms_okD)
  then have "\<not> roundActive rm" using assms(3,4) by (simp add: room_ok_def)
  then show ?thesis using assms(2) by (simp add: answer_def)
qed


theorem late_answer_dropped_witness:
  "map_option (map_option winnerSocketId \<circ> currentQuestion \<circ> snd) (socketRoom won1 ''b'')
     = Some (Some (Some ''a'')) \<and>
   answer ''b'' 3 won1 = (won1, [])"
proof -
  have w: "map_option (map_option winnerSocketId \<circ> currentQuestion \<circ> snd) (socketRoom won1 ''b'')
     = Some (Some (Some ''a''))" by code_simp
  then obtain r rm q where
    "socketRoom won1 ''b'' = Some (r, rm)" "currentQuestion rm = Some q" "winnerSocketId q \<noteq> None"
    by (cases "socketRoom won1 ''b''") auto
  from late_answer_dropped [OF won1_def this] w show ?thesis by simp
qed


text \<open>
  C1 as stated fails: after \<open>a\<close> has won the round, player \<open>b\<close> of the same room submits
  the right index and receives no \<open>answerResult\<close>.
\<close>

theorem late_answer_gets_no_result:
  "map_option (map_option winnerSocketId \<circ> currentQuestion \<circ> snd) (socketRoom won1 ''b'')
     = Some (Some (Some ''a'')) \<and>
   map_option (map_option correctIndex \<circ> currentQuestion \<circ> snd) (socketRoom won1 ''b'')
     = Some (Some 3) \<and>
   hasEntry won1 ''R'' ''b'' \<and>
   snd (answer ''b'' 3 won1) = [] \<and>
   Emit ''b'' (AnswerResult True) \<notin> set (snd (answer ''b'' 3 won1))"
  by code_simp

subsection \<open>The deferred round advance on a destroyed room\<close>

text \<open>
  C7.  When the deferred round advance fires for a room id that is no longer in the
  registry, \<open>startNextRound\<close> looks the room up, finds nothing and returns: the state is
  unchanged and nothing is emitted.  For the timer event itself the only effect is that
  the fired timer is no longer pending.
\<close>

theorem timer_on_destroyed_room:
  "rooms s r = None \<Longrightarrow>
     startNextRound songs r s = (s, []) \<and>
     (timers s = r # ts \<longrightarrow> timerFire songs s = (s\<lparr>timers := ts\<rparr>, []))"
  by (simp add: startNextRound_def timerFire_def)

theorem timer_on_destroyed_room_witness:
  "rooms abandoned ''R'' = None \<and> timers abandoned = [''R''] \<and>
   startNextRound demoSongs ''R'' abandoned = (abandoned, []) \<and>
   timerFire demoSongs abandoned = (abandoned\<lparr>timers := []\<rparr>, [])"
proof -
  have h: "rooms abandoned ''R'' = None" by code_simp
  have t: "timers abandoned = [''R'']" by code_simp
  show ?thesis using timer_on_destroyed_room [OF h, of demoSongs "[]"] h t by simp
qed

subsection \<open>startGame from a non-host or without a room\<close>

text \<open>
  C8.  A \<open>startGame\<close> whose caller has no room in the registry (it never joined, or its
  room is gone), or whose caller is not the room's host, is ignored: the state is
  unchanged and no event is emitted.
\<close>

theorem startGame_ignored:
  "socketRoom s sid = None \<or> (\<exists>r rm. socketRoom s sid = Some (r, rm) \<and> hostId rm \<noteq> Some sid) \<Longrightarrow>
     startGame songs sid s = (s, [])"
  by (auto simp: startGame_def)

theorem startGame_ignored_witness:
  "map_option (hostId \<circ> snd) (socketRoom lobby ''b'') = Some (Some ''a'') \<and>
   socketRoom lobby ''c'' = None \<and>
   startGame demoSongs ''b'' lobby = (lobby, []) \<and> startGame demoSongs ''c'' lobby = (lobby, [])"
proof -
  have b: "map_option (hostId \<circ> snd) (socketRoom lobby ''b'') = Some (Some ''a'')" by code_simp
  have c: "socketRoom lobby ''c'' = None" by code_simp
  from b have "\<exists>r rm. socketRoom lobby ''b'' = Some (r, rm) \<and> hostId rm \<noteq> Some ''b''"
    by (cases "socketRoom lobby ''b''") auto
  then show ?thesis
    using startGame_ignored [of lobby "''b''" demoSongs] startGame_ignored [of lobby "''c''" demoSongs] b c
    by simp
qed

subsection \<open>Joining a room\<close>

lemma map_of_update_same: "map_of (AList.update k v al) k = Some v"
  by (simp add: update_conv')

lemma map_of_update_other: "k' \<noteq> k \<Longrightarrow> map_of (AList.update k v al) k' = map_of al k'"
  by (simp add: update_conv')


text \<open>
  C9.  After \<open>joinRoom\<close> the room exists and holds the entry \<open>{name, score: 0}\<close> for the
  joining socket, whatever entry it had before (a rejoin resets the score); the other
  entries are as before; a room that was missing or had no host has the joining socket as
  host, and a room with a (truthy) host keeps it; exactly one event is emitted, the
  \<open>roomState {roomId, hostId, players}\<close> of the updated room, to the room.  The socket
  remembers this room, and no other room changes.
\<close>

theorem joinRoom_effect:
  "joinRoom sid r nm s = (s', out) \<Longrightarrow>
     (\<exists>rm'. rooms s' r = Some rm'
        \<and> map_of (players rm') sid = Some \<lparr>name = nm, score = 0\<rparr>
        \<and> (\<forall>k. k \<noteq> sid \<longrightarrow>
              map_of (players rm') k = (case rooms s r of None \<Rightarrow> None | Some rm \<Rightarrow> map_of (players rm) k))
        \<and> ((case rooms s r of None \<Rightarrow> True | Some rm \<Rightarrow> hostId rm = None) \<longrightarrow> hostId rm' = Some sid)
        \<and> (\<forall>rm. rooms s r = Some rm \<and> \<not> falsy (hostId rm) \<longrightarrow> hostId rm' = hostId rm)
        \<and> out = [Emit r (RoomState r (hostId rm') (players rm'))])
     \<and> socketData s' sid = Some r
     \<and> (\<forall>r'. r' \<noteq> r \<longrightarrow> rooms s' r' = rooms s r')"
proof (cases "rooms s r")
  case None
  assume "joinRoom sid r nm s = (s', out)"
  with None show ?thesis
    by (auto simp: joinRoom_def getOrCreateRoom_def newRoom_def)
next
  case (Some rm)
  assume "joinRoom sid r nm s = (s', out)"
  with Some show ?thesis
    by (auto simp: joinRoom_def getOrCreateRoom_def Let_def map_of_update_same map_of_update_other)
qed


theorem joinRoom_effect_witness:
  "(case rooms won1 ''R'' of None \<Rightarrow> False
    | Some rm \<Rightarrow> map_of (players rm) ''a'' = Some \<lparr>name = ''ann'', score = 1\<rparr>) \<and>
   (\<exists>rm'. rooms (fst (joinRoom ''a'' ''R'' ''ann'' won1)) ''R'' = Some rm'
      \<and> map_of (players rm') ''a'' = Some \<lparr>name = ''ann'', score = 0\<rparr>
      \<and> snd (joinRoom ''a'' ''R'' ''ann'' won1) = [Emit ''R'' (RoomState ''R'' (hostId rm') (players rm'))])"
proof -
  have pre: "(case rooms won1 ''R'' of None \<Rightarrow> False
    | Some rm \<Rightarrow> map_of (players rm) ''a'' = Some \<lparr>name = ''ann'', score = 1\<rparr>)"
    by code_simp
  have "joinRoom ''a'' ''R'' ''ann'' won1 =
          (fst (joinRoom ''a'' ''R'' ''ann'' won1), snd (joinRoom ''a'' ''R'' ''ann'' won1))"
    by simp
  from joinRoom_effect [OF this] pre show ?thesis by blast
qed

subsection \<open>Disconnecting\<close>

lemma delete_empty_iff: "AList.delete k al = [] \<longleftrightarrow> fst ` set al \<subseteq> {k}"
  by (induction al) (auto simp: )

lemma map_of_delete_same: "map_of (AList.delete k al) k = None"
  by (simp add: delete_conv')

lemma map_of_delete_other: "k' \<noteq> k \<Longrightarrow> map_of (AList.delete k al) k' = map_of al k'"
  by (simp add: delete_conv')

lemma hd_delete_member:
  assumes "AList.delete k al \<noteq> []"
  shows "\<exists>h ps. map fst (AList.delete k al) = h # ps \<and> h \<noteq> k \<and> map_of (AList.delete k al) h \<noteq> None"
proof -
  from assms obtain p ps where d: "AList.delete k al = p # ps"
    by (cases "AList.delete k al") auto
  then have "fst p \<in> fst ` set (AList.delete k al)" by simp
  then have "fst p \<noteq> k" using delete_notin_dom [of k al] by auto
  moreover have "map_of (AList.delete k al) (fst p) = Some (snd p)"
    using d by (cases p) simp
  ultimately show ?thesis using d by auto
qed


text \<open>
  C6, as the code has it.  A disconnect acts on one room only, the room the socket joined
  last (\<^verbatim>\<open>socket.data.roomId\<close>).  When that room exists: if nobody else has an entry in
  it, the room is removed from the registry and nothing is emitted.  Otherwise the room
  stays, the socket's entry is gone and all other entries are as before; if the socket was
  the host, the new host is another socket that has an entry in the room, and if not, the
  host is unchanged; exactly one event is emitted, the \<open>roomState\<close> of the updated room.
  No other room changes, so a room that the socket joined earlier keeps the socket's entry
  and, if the socket was its host, keeps it as host.
\<close>

theorem disconnect_effect:
  assumes "socketData s sid = Some r" and "rooms s r = Some rm" and "disconnect sid s = (s', out)"
  shows "(if fst ` set (players rm) \<subseteq> {sid}
          then rooms s' r = None \<and> out = []
          else \<exists>rm'. rooms s' r = Some rm'
                 \<and> map_of (players rm') sid = None
                 \<and> (\<forall>k. k \<noteq> sid \<longrightarrow> map_of (players rm') k = map_of (players rm) k)
                 \<and> (if hostId rm = Some sid
                     then \<exists>h. hostId rm' = Some h \<and> h \<noteq> sid \<and> map_of (players rm') h \<noteq> None
                     else hostId rm' = hostId rm)
                 \<and> out = [Emit r (RoomState r (hostId rm') (players rm'))])
         \<and> (\<forall>r'. r' \<noteq> r \<longrightarrow> rooms s' r' = rooms s r')"
proof (cases "AList.delete sid (players rm) = []")
  case True
  then show ?thesis using assms
    by (auto simp: disconnect_def socketRoom_def Let_def delete_empty_iff)
next
  case False
  define ps where "ps = AList.delete sid (players rm)"
  define h' where "h' = (if hostId rm = Some sid
                   then (case map fst ps of [] \<Rightarrow> None | k # _ \<Rightarrow> Some k)
                   else hostId rm)"
  define rm' where "rm' = rm\<lparr>players := ps, hostId := h'\<rparr>"
  from hd_delete_member[OF False] obtain h hs where
    h: "map fst ps = h # hs" "h \<noteq> sid" "map_of ps h \<noteq> None"
    unfolding ps_def by (elim exE conjE)
  from False have ne: "\<not> fst ` set (players rm) \<subseteq> {sid}" by (simp add: delete_empty_iff)
  from False have "ps \<noteq> []" by (simp add: ps_def)
  with assms have res: "s' = s\<lparr>rooms := (rooms s)(r \<mapsto> rm')\<rparr>" "out = [Emit r (RoomState r h' ps)]"
    by (auto simp: disconnect_def socketRoom_def Let_def ps_def h'_def rm'_def)
  have 1: "rooms s' r = Some rm'" using res by simp
  have 2: "map_of (players rm') sid = None"
    by (simp add: rm'_def ps_def map_of_delete_same)
  have 3: "\<forall>k. k \<noteq> sid \<longrightarrow> map_of (players rm') k = map_of (players rm) k"
    by (simp add: rm'_def ps_def map_of_delete_other)
  have 4: "if hostId rm = Some sid
           then \<exists>h. hostId rm' = Some h \<and> h \<noteq> sid \<and> map_of (players rm') h \<noteq> None
           else hostId rm' = hostId rm"
    using h by (simp add: rm'_def h'_def)
  have 5: "out = [Emit r (RoomState r (hostId rm') (players rm'))]"
    using res by (simp add: rm'_def)
  have 6: "\<forall>r'. r' \<noteq> r \<longrightarrow> rooms s' r' = rooms s r'" using res by simp
  from ne 1 2 3 4 5 6 show ?thesis by (simp del: split_paired_All)
qed

theorem disconnect_effect_witness:
  "socketData lobby ''a'' = Some ''R'' \<and>
   (case rooms lobby ''R'' of None \<Rightarrow> False | Some rm \<Rightarrow> hostId rm = Some ''a'' \<and> map fst (players rm) = [''a'', ''b'']) \<and>
   (\<exists>rm'. rooms (fst (disconnect ''a'' lobby)) ''R'' = Some rm' \<and> hostId rm' = Some ''b'' 
      \<and> map_of (players rm') ''a'' = None
      \<and> snd (disconnect ''a'' lobby) = [Emit ''R'' (RoomState ''R'' (hostId rm') (players rm'))])"
proof -
  have sd: "socketData lobby ''a'' = Some ''R''" by code_simp
  have pre: "(case rooms lobby ''R'' of None \<Rightarrow> False | Some rm \<Rightarrow> hostId rm = Some ''a'' \<and> map fst (players rm) = [''a'', ''b''])"
    by code_simp
  then obtain rm where rm: "rooms lobby ''R'' = Some rm" "hostId rm = Some ''a''" "map fst (players rm) = [''a'', ''b'']"
    by (cases "rooms lobby ''R''") auto
  have ne: "\<not> fst ` set (players rm) \<subseteq> {''a''}"
  proof
    assume "fst ` set (players rm) \<subseteq> {''a''}"
    then have "set (map fst (players rm)) \<subseteq> {''a''}" by simp
    with rm(3) show False by simp
  qed
  have pr: "disconnect ''a'' lobby = (fst (disconnect ''a'' lobby), snd (disconnect ''a'' lobby))" by simp
  have hb: "(case rooms (fst (disconnect ''a'' lobby)) ''R'' of None \<Rightarrow> False | Some rm' \<Rightarrow> hostId rm' = Some ''b'')"
    by code_simp
  from disconnect_effect [OF sd rm(1) pr] ne rm(2) hb pre sd show ?thesis by auto
qed

text \<open>
  C6 as stated, for every room the connection is in, fails: \<open>b\<close> is a player and the host
  of \<open>R\<close>, where \<open>a\<close> is a player too, and \<open>b\<close> joined \<open>Q\<close> afterwards.  When \<open>b\<close>
  disconnects, \<open>R\<close> still has \<open>b\<close>'s entry and \<open>b\<close> as host, and no \<open>roomState\<close> is
  emitted (the only room touched is \<open>Q\<close>, which is removed).
\<close>

theorem disconnect_misses_earlier_room:
  "hasEntry hostElsewhere ''R'' ''b'' \<and>
   map_option hostId (rooms hostElsewhere ''R'') = Some (Some ''b'') \<and>
   map_option (map fst \<circ> players) (rooms hostElsewhere ''R'') = Some [''b'', ''a''] \<and>
   hasEntry (fst (disconnect ''b'' hostElsewhere)) ''R'' ''b'' \<and>
   map_option hostId (rooms (fst (disconnect ''b'' hostElsewhere)) ''R'') = Some (Some ''b'') \<and>
   snd (disconnect ''b'' hostElsewhere) = []"
  by code_simp

subsection \<open>A socket that joined a second room\<close>

lemma run_append:
  "run songs (xs @ ys) s =
     (fst (run songs ys (fst (run songs xs s))),
      snd (run songs xs s) @ snd (run songs ys (fst (run songs xs s))))"
  by (induction xs arbitrary: s) (simp_all add: split_beta Let_def)

lemma run_Cons_fst: "fst (run songs (e # es) s) = fst (run songs es (fst (step songs e s)))"
  by (simp add: split_beta Let_def)

text \<open>What each handler does to the players of a room and to the remembered room ids.\<close>

lemma startNextRound_frame:
  "socketData (fst (startNextRound songs r s)) = socketData s"
  "timers (fst (startNextRound songs r s)) = timers s"
  "map_option players (rooms (fst (startNextRound songs r s)) r') = map_option players (rooms s r')"
  "map_option hostId (rooms (fst (startNextRound songs r s)) r') = map_option hostId (rooms s r')"
  by (auto simp: startNextRound_def Let_def split: option.splits prod.splits)

lemma startGame_frame:
  "socketData (fst (startGame songs sid s)) = socketData s"
  "map_option players (rooms (fst (startGame songs sid s)) r') = map_option players (rooms s r')"
  "map_option hostId (rooms (fst (startGame songs sid s)) r') = map_option hostId (rooms s r')"
proof -
  have *: "socketData (fst (startGame songs sid s)) = socketData s \<and>
    map_option players (rooms (fst (startGame songs sid s)) r') = map_option players (rooms s r') \<and>
    map_option hostId (rooms (fst (startGame songs sid s)) r') = map_option hostId (rooms s r')"
  proof (cases "socketRoom s sid")
    case None then show ?thesis by (simp add: startGame_def)
  next
    case (Some p)
    obtain r rm where p: "p = (r, rm)" by (cases p)
    have rm: "rooms s r = Some rm" using Some p by (simp add: socketRoomD)
    show ?thesis
    proof (cases "hostId rm = Some sid")
      case False then show ?thesis using Some p by (simp add: startGame_def)
    next
      case True
      obtain shuffled g' where sh: "shuffle songs (rng s) = (shuffled, g')"
        by (cases "shuffle songs (rng s)")
      let ?s1 = "s\<lparr>rooms := (rooms s)(r \<mapsto> rm\<lparr>gameQuestions := take 10 shuffled, gameIndex := 0\<rparr>), rng := g'\<rparr>"
      have eq: "fst (startGame songs sid s) = fst (startNextRound songs r ?s1)"
        using Some p True sh by (simp add: startGame_def Let_def split_beta)
      show ?thesis unfolding eq startNextRound_frame using rm by simp
    qed
  qed
  show "socketData (fst (startGame songs sid s)) = socketData s"
   and "map_option players (rooms (fst (startGame songs sid s)) r') = map_option players (rooms s r')"
   and "map_option hostId (rooms (fst (startGame songs sid s)) r') = map_option hostId (rooms s r')"
    using * by simp_all
qed

lemma timerFire_frame:
  "socketData (fst (timerFire songs s)) = socketData s"
  "map_option players (rooms (fst (timerFire songs s)) r') = map_option players (rooms s r')"
  "map_option hostId (rooms (fst (timerFire songs s)) r') = map_option hostId (rooms s r')"
  by (simp_all add: timerFire_def startNextRound_frame split: list.splits)

lemma answer_socketData: "socketData (fst (answer sid i s)) = socketData s"
  by (auto simp: answer_def Let_def split: option.splits prod.splits)

lemma disconnect_socketData: "socketData (fst (disconnect sid s)) = socketData s"
  by (auto simp: disconnect_def Let_def split: option.splits prod.splits)

lemma joinRoom_socketData:
  "socketData (fst (joinRoom sid r nm s)) = (socketData s)(sid \<mapsto> r)"
  by (auto simp: joinRoom_def getOrCreateRoom_def Let_def split: option.splits)

lemma step_socketData: "\<not> joins sid e \<Longrightarrow> socketData (fst (step songs e s)) sid = socketData s sid"
  by (cases e) (simp_all add: joinRoom_socketData startGame_frame answer_socketData
      disconnect_socketData timerFire_frame)

lemma run_socketData:
  "\<forall>e\<in>set es. \<not> joins sid e \<Longrightarrow> socketData (fst (run songs es s)) sid = socketData s sid"
  by (induction es arbitrary: s) (simp_all add: run_Cons_fst step_socketData del: run.simps(2))

lemma disconnect_other_room:
  "socketData s sid = Some r \<Longrightarrow> r' \<noteq> r \<Longrightarrow> rooms (fst (disconnect sid s)) r' = rooms s r'"
  by (auto simp: disconnect_def socketRoom_def Let_def split: option.splits)

lemma disconnect_entry_gone:
  "socketData s sid = Some r \<Longrightarrow> \<not> hasEntry (fst (disconnect sid s)) r sid"
  by (auto simp: disconnect_def socketRoom_def hasEntry_def Let_def map_of_delete_same split: option.splits)


text \<open>An entry of a room is removed only by the disconnect of its socket from that room.\<close>

lemma hasEntry_players:
  "map_option players (rooms s' r) = map_option players (rooms s r) \<Longrightarrow>
     hasEntry s' r sid = hasEntry s r sid"
  by (cases "rooms s r"; cases "rooms s' r") (auto simp: hasEntry_def)

lemma joinRoom_hasEntry: "hasEntry s r sid \<Longrightarrow> hasEntry (fst (joinRoom sid' r' nm s)) r sid"
  by (auto simp: joinRoom_def getOrCreateRoom_def hasEntry_def Let_def update_conv'
      split: option.splits)

lemma answer_hasEntry: "hasEntry s r sid \<Longrightarrow> hasEntry (fst (answer sid' i s)) r sid"
  by (auto simp: answer_def socketRoom_def hasEntry_def Let_def update_conv'
      split: option.splits)

lemma disconnect_hasEntry:
  assumes "hasEntry s r sid" and "sid' = sid \<longrightarrow> socketData s sid \<noteq> Some r"
  shows "hasEntry (fst (disconnect sid' s)) r sid"
proof (cases "socketRoom s sid'")
  case None then show ?thesis using assms by (simp add: disconnect_def)
next
  case (Some p)
  obtain r' rm where p: "p = (r', rm)" by (cases p)
  have sd: "socketData s sid' = Some r'" "rooms s r' = Some rm"
    using Some p by (auto simp: socketRoom_def split: option.splits)
  show ?thesis
  proof (cases "r' = r")
    case False
    then show ?thesis using assms(1) disconnect_other_room [OF sd(1), of r]
      by (simp add: hasEntry_def)
  next
    case True
    with assms sd have ne: "sid' \<noteq> sid" by auto
    from assms(1) True sd have e: "map_of (players rm) sid \<noteq> None" by (simp add: hasEntry_def)
    then have "map_of (AList.delete sid' (players rm)) sid \<noteq> None"
      using ne by (simp add: delete_conv')
    moreover from this have "AList.delete sid' (players rm) \<noteq> []" by auto
    ultimately show ?thesis using Some p True
      by (simp add: disconnect_def Let_def hasEntry_def)
  qed
qed

lemma step_hasEntry:
  assumes "hasEntry s r sid" and "e = Disconnect sid \<longrightarrow> socketData s sid \<noteq> Some r"
  shows "hasEntry (fst (step songs e s)) r sid"
proof (cases e)
  case (JoinRoom sid' r' nm)
  then show ?thesis using assms(1) by (simp add: joinRoom_hasEntry)
next
  case (StartGame sid')
  have "hasEntry (fst (startGame songs sid' s)) r sid = hasEntry s r sid"
    by (rule hasEntry_players) (simp add: startGame_frame)
  then show ?thesis using StartGame assms(1) by simp
next
  case (Answer sid' i)
  then show ?thesis using assms(1) by (simp add: answer_hasEntry)
next
  case (Disconnect sid')
  have "hasEntry (fst (disconnect sid' s)) r sid"
    using assms(1) by (rule disconnect_hasEntry) (use assms(2) Disconnect in simp)
  then show ?thesis using Disconnect by simp
next
  case TimerFire
  have "hasEntry (fst (timerFire songs s)) r sid = hasEntry s r sid"
    by (rule hasEntry_players) (simp add: timerFire_frame)
  then show ?thesis using TimerFire assms(1) by simp
qed

lemma run_hasEntry_joined_elsewhere:
  assumes "hasEntry s r sid" and "socketData s sid = Some r'" and "r' \<noteq> r"
    and "\<forall>e\<in>set es. \<not> joins sid e"
  shows "hasEntry (fst (run songs es s)) r sid"
  using assms
proof (induction es arbitrary: s)
  case Nil then show ?case by simp
next
  case (Cons e es)
  have 1: "hasEntry (fst (step songs e s)) r sid"
    using Cons.prems by (intro step_hasEntry) auto
  have 2: "socketData (fst (step songs e s)) sid = Some r'"
    using Cons.prems by (simp add: step_socketData)
  from Cons.IH [OF 1 2] Cons.prems show ?case by (simp add: run_Cons_fst del: run.simps(2))
qed

lemma run_hasEntry_connected:
  assumes "hasEntry s r sid" and "\<forall>e\<in>set es. e \<noteq> Disconnect sid"
  shows "hasEntry (fst (run songs es s)) r sid"
  using assms
proof (induction es arbitrary: s)
  case Nil then show ?case by simp
next
  case (Cons e es)
  have 1: "hasEntry (fst (step songs e s)) r sid"
    using Cons.prems by (intro step_hasEntry) auto
  from Cons.IH [OF 1] Cons.prems show ?case by (simp add: run_Cons_fst del: run.simps(2))
qed


text \<open>
  C10.  A socket joins room \<open>A\<close>, stays connected, later joins a different room \<open>B\<close>, and
  does not join again; other events may happen in between.  Then the socket remembers
  \<open>B\<close> only, and when it disconnects, room \<open>A\<close> is exactly as it was just before (its
  registry entry, and with it its players and its host): the entry the socket left in
  \<open>A\<close> is still there, while \<open>B\<close> has no entry for the socket any more.
\<close>

theorem stale_entry_survives:
  assumes "rA \<noteq> rB"
    and "s1 = fst (joinRoom sid rA nA s0)"
    and "\<forall>e\<in>set es1. e \<noteq> Disconnect sid"
    and "s2 = fst (run songs (es1 @ [JoinRoom sid rB nB]) s1)"
    and "\<forall>e\<in>set es2. \<not> joins sid e"
    and "s3 = fst (run songs es2 s2)"
    and "s4 = fst (disconnect sid s3)"
  shows "socketData s3 sid = Some rB \<and> rooms s4 rA = rooms s3 rA \<and>
         hasEntry s1 rA sid \<and> hasEntry s4 rA sid \<and> \<not> hasEntry s4 rB sid"
proof -
  have e1: "hasEntry s1 rA sid"
    using assms(2) by (auto simp: joinRoom_def getOrCreateRoom_def hasEntry_def Let_def update_conv' split: option.splits)
  let ?m = "fst (run songs es1 s1)"
  have em: "hasEntry ?m rA sid" using e1 assms(3) by (rule run_hasEntry_connected)
  have s2: "s2 = fst (joinRoom sid rB nB ?m)" using assms(4) by (simp add: run_append)
  have e2: "hasEntry s2 rA sid" unfolding s2 using em by (rule joinRoom_hasEntry)
  have d2: "socketData s2 sid = Some rB" unfolding s2 by (simp add: joinRoom_socketData)
  have d3: "socketData s3 sid = Some rB"
    using assms(5,6) d2 by (simp add: run_socketData)
  have e3: "hasEntry s3 rA sid"
    unfolding assms(6) using e2 d2 assms(1)[symmetric] assms(5) by (rule run_hasEntry_joined_elsewhere)
  have f: "rooms s4 rA = rooms s3 rA"
    unfolding assms(7) using d3 assms(1) by (rule disconnect_other_room)
  have e4: "hasEntry s4 rA sid" using e3 f by (simp add: hasEntry_def)
  have g: "\<not> hasEntry s4 rB sid" unfolding assms(7) using d3 by (rule disconnect_entry_gone)
  from d3 f e1 e4 g show ?thesis by simp
qed

theorem stale_entry_survives_witness:
  "rooms (fst (disconnect ''b'' twoRooms)) ''R'' = rooms twoRooms ''R'' \<and>
   hasEntry (fst (disconnect ''b'' twoRooms)) ''R'' ''b'' \<and>
   \<not> hasEntry (fst (disconnect ''b'' twoRooms)) ''Q'' ''b''"
proof -
  have ne: "''R'' \<noteq> ''Q''" by simp
  let ?s0 = "fst (run demoSongs [JoinRoom ''a'' ''R'' ''ann''] (init (\<lambda>_. 0)))"
  have 1: "\<forall>e\<in>set []. e \<noteq> Disconnect ''b''" by simp
  have 2: "\<forall>e\<in>set [JoinRoom ''c'' ''Q'' ''cy'']. \<not> joins ''b'' e" by simp
  have 3: "twoRooms = fst (run demoSongs [JoinRoom ''c'' ''Q'' ''cy'']
      (fst (run demoSongs ([] @ [JoinRoom ''b'' ''Q'' ''bob'']) (fst (joinRoom ''b'' ''R'' ''bob'' ?s0)))))"
    by (simp add: twoRooms_def split_beta Let_def)
  from stale_entry_survives [OF ne refl 1 refl 2 3 refl] show ?thesis by simp
qed

subsection \<open>The index of the question events\<close>

lemma track_append: "track r c (xs @ ys) = track r (track r c xs) ys"
  by (induction xs arbitrary: c) simp_all

lemma questionsOk_append:
  "questionsOk r c (xs @ ys) = (questionsOk r c xs \<and> questionsOk r (track r c xs) ys)"
  by (induction xs arbitrary: c) simp_all

lemma startNextRound_track:
  assumes "trackInv r c s" and "startNextRound songs r0 s = (s', out)"
  shows "questionsOk r c out \<and> trackInv r (track r c out) s'"
proof (cases "rooms s r0")
  case None
  then show ?thesis using assms by (simp add: startNextRound_def)
next
  case (Some rm0)
  obtain n ttl where c: "c = (n, ttl)" by (cases c)
  show ?thesis
  proof (cases "exhausted rm0")
    case True
    then show ?thesis using assms Some c
      by (auto simp: startNextRound_def exhausted_def)
  next
    case False
    show ?thesis
    proof (cases "r0 = r")
      case True
      then show ?thesis using assms Some c False
        by (auto simp: startNextRound_def exhausted_def trackInv_def Let_def split: prod.splits option.splits)
    next
      case ne: False
      then show ?thesis using assms Some c False
        by (auto simp: startNextRound_def exhausted_def trackInv_def Let_def split: prod.splits option.splits)
    qed
  qed
qed


lemma trackInv_same_game:
  assumes "trackInv r c s"
    and "\<And>rm'. rooms s' r = Some rm' \<Longrightarrow>
           (\<exists>rm. rooms s r = Some rm \<and> gameIndex rm' = gameIndex rm \<and>
                 gameQuestions rm' = gameQuestions rm) \<or> exhausted rm'"
  shows "trackInv r c s'"
proof (cases "rooms s' r")
  case None then show ?thesis by (simp add: trackInv_def)
next
  case (Some rm')
  from assms(2) [OF Some] assms(1) Some show ?thesis
    by (auto simp: trackInv_def exhausted_def)
qed

lemma joinRoom_track:
  assumes "trackInv r c s" and "joinRoom sid r0 nm s = (s', out)"
  shows "questionsOk r c out \<and> trackInv r (track r c out) s'"
proof -
  obtain n ttl where c: "c = (n, ttl)" by (cases c)
  have o: "questionsOk r c out \<and> track r c out = c"
    using assms(2) c by (auto simp: joinRoom_def getOrCreateRoom_def Let_def split: option.splits)
  have "trackInv r c s'"
    using assms(1)
  proof (rule trackInv_same_game)
    fix rm' assume "rooms s' r = Some rm'"
    then show "(\<exists>rm. rooms s r = Some rm \<and> gameIndex rm' = gameIndex rm \<and>
                 gameQuestions rm' = gameQuestions rm) \<or> exhausted rm'"
      using assms(2)
      by (cases "r0 = r")
         (auto simp: joinRoom_def getOrCreateRoom_def newRoom_def exhausted_def Let_def
               split: option.splits)
  qed
  with o show ?thesis by simp
qed

lemma disconnect_track:
  assumes "trackInv r c s" and "disconnect sid s = (s', out)"
  shows "questionsOk r c out \<and> trackInv r (track r c out) s'"
proof -
  obtain n ttl where c: "c = (n, ttl)" by (cases c)
  have o: "questionsOk r c out \<and> track r c out = c"
    using assms(2) c by (auto simp: disconnect_def Let_def split: option.splits if_splits)
  have "trackInv r c s'"
    using assms(1)
  proof (rule trackInv_same_game)
    fix rm' assume "rooms s' r = Some rm'"
    then show "(\<exists>rm. rooms s r = Some rm \<and> gameIndex rm' = gameIndex rm \<and>
                 gameQuestions rm' = gameQuestions rm) \<or> exhausted rm'"
      using assms(2)
      by (auto simp: disconnect_def socketRoom_def Let_def split: option.splits if_splits)
  qed
  with o show ?thesis by simp
qed

lemma answer_track:
  assumes "trackInv r c s" and "answer sid i s = (s', out)"
  shows "questionsOk r c out \<and> trackInv r (track r c out) s'"
proof -
  obtain n ttl where c: "c = (n, ttl)" by (cases c)
  have o: "questionsOk r c out \<and> track r c out = c"
    using assms(2) c by (auto simp: answer_def Let_def split: option.splits if_splits)
  have "trackInv r c s'"
    using assms(1)
  proof (rule trackInv_same_game)
    fix rm' assume "rooms s' r = Some rm'"
    then show "(\<exists>rm. rooms s r = Some rm \<and> gameIndex rm' = gameIndex rm \<and>
                 gameQuestions rm' = gameQuestions rm) \<or> exhausted rm'"
      using assms(2)
      by (auto simp: answer_def socketRoom_def Let_def split: option.splits if_splits)
  qed
  with o show ?thesis by simp
qed


lemma startGame_track:
  assumes "trackInv r c s" and "startGame songs sid s = (s', out)"
  shows "questionsOk r c out \<and> trackInv r (track r c out) s'"
proof (cases "socketRoom s sid")
  case None then show ?thesis using assms by (simp add: startGame_def)
next
  case (Some p)
  obtain r0 rm0 where p: "p = (r0, rm0)" by (cases p)
  obtain n ttl where c: "c = (n, ttl)" by (cases c)
  show ?thesis
  proof (cases "hostId rm0 = Some sid")
    case False then show ?thesis using assms Some p by (simp add: startGame_def)
  next
    case True
    obtain shuffled g' where sh: "shuffle songs (rng s) = (shuffled, g')"
      by (cases "shuffle songs (rng s)")
    let ?rm1 = "rm0\<lparr>gameQuestions := take 10 shuffled, gameIndex := 0\<rparr>"
    let ?s1 = "s\<lparr>rooms := (rooms s)(r0 \<mapsto> ?rm1), rng := g'\<rparr>"
    let ?start = "Emit r0 (GameStart (length (gameQuestions ?rm1)))"
    obtain s2 out' where nx: "startNextRound songs r0 ?s1 = (s2, out')"
      by (cases "startNextRound songs r0 ?s1")
    have eq: "s' = s2" "out = ?start # out'"
      using assms(2) Some p True sh nx by (simp_all add: startGame_def Let_def)
    have "trackInv r (observe r c ?start) ?s1"
      using assms(1) c by (cases "r0 = r") (simp_all add: trackInv_def)
    from startNextRound_track [OF this nx] show ?thesis
      using eq c by simp
  qed
qed

lemma timerFire_track:
  assumes "trackInv r c s" and "timerFire songs s = (s', out)"
  shows "questionsOk r c out \<and> trackInv r (track r c out) s'"
proof (cases "timers s")
  case Nil then show ?thesis using assms by (simp add: timerFire_def)
next
  case (Cons r0 ts)
  have 1: "trackInv r c (s\<lparr>timers := ts\<rparr>)" using assms(1) by (simp add: trackInv_def)
  have 2: "startNextRound songs r0 (s\<lparr>timers := ts\<rparr>) = (s', out)"
    using assms(2) Cons by (simp add: timerFire_def)
  from 1 2 show ?thesis by (rule startNextRound_track)
qed

lemma step_track:
  assumes "trackInv r c s" and "step songs e s = (s', out)"
  shows "questionsOk r c out \<and> trackInv r (track r c out) s'"
proof (cases e)
  case (JoinRoom sid r0 nm)
  then show ?thesis using assms joinRoom_track by simp
next
  case (StartGame sid)
  then show ?thesis using assms startGame_track by simp
next
  case (Answer sid i)
  then show ?thesis using assms answer_track by simp
next
  case (Disconnect sid)
  then show ?thesis using assms disconnect_track by simp
next
  case TimerFire
  then show ?thesis using assms timerFire_track by simp
qed

lemma run_track:
  "trackInv r c s \<Longrightarrow>
     questionsOk r c (snd (run songs es s)) \<and>
     trackInv r (track r c (snd (run songs es s))) (fst (run songs es s))"
proof (induction es arbitrary: c s)
  case Nil
  then show ?case by simp
next
  case (Cons e es)
  obtain s1 o1 where st: "step songs e s = (s1, o1)" by (cases "step songs e s")
  from step_track [OF Cons.prems st]
  have 1: "questionsOk r c o1" and 2: "trackInv r (track r c o1) s1" by simp_all
  from Cons.IH [OF 2] 1 st show ?case
    by (simp add: split_beta Let_def questionsOk_append track_append)
qed

text \<open>A \<open>question\<close> event carries the cursor and the length stored by the same step.\<close>

lemma startNextRound_question:
  assumes "Emit r (Question u opts idx tot) \<in> set (snd (startNextRound songs r0 s))"
  shows "\<exists>rm rm'. rooms s r = Some rm \<and> rooms (fst (startNextRound songs r0 s)) r = Some rm' \<and>
           idx = gameIndex rm + 1 \<and>
           gameIndex rm' = idx \<and> gameQuestions rm' = gameQuestions rm \<and>
           length (gameQuestions rm') = tot"
  using assms
  by (auto simp: startNextRound_def Let_def split: option.splits if_splits prod.splits)

lemma step_question:
  assumes "Emit r (Question u opts idx tot) \<in> set (snd (step songs e s))"
  shows "\<exists>rm'. rooms (fst (step songs e s)) r = Some rm' \<and>
           gameIndex rm' = idx \<and> length (gameQuestions rm') = tot"
proof (cases e)
  case (JoinRoom sid r0 nm)
  then show ?thesis using assms
    by (auto simp: joinRoom_def getOrCreateRoom_def Let_def split: option.splits)
next
  case (StartGame sid)
  show ?thesis
  proof (cases "socketRoom s sid")
    case None then show ?thesis using assms StartGame by (simp add: startGame_def)
  next
    case (Some p)
    obtain r0 rm0 where p: "p = (r0, rm0)" by (cases p)
    show ?thesis
    proof (cases "hostId rm0 = Some sid")
      case False then show ?thesis using assms StartGame Some p by (simp add: startGame_def)
    next
      case True
      obtain shuffled g' where sh: "shuffle songs (rng s) = (shuffled, g')"
        by (cases "shuffle songs (rng s)")
      let ?s1 = "s\<lparr>rooms := (rooms s)(r0 \<mapsto> rm0\<lparr>gameQuestions := take 10 shuffled, gameIndex := 0\<rparr>), rng := g'\<rparr>"
      have eq: "fst (startGame songs sid s) = fst (startNextRound songs r0 ?s1)"
        "set (snd (startGame songs sid s)) =
           insert (Emit r0 (GameStart (length (take 10 shuffled)))) (set (snd (startNextRound songs r0 ?s1)))"
        using Some p True sh by (simp_all add: startGame_def Let_def split_beta)
      from assms StartGame eq(2)
      have "Emit r (Question u opts idx tot) \<in> set (snd (startNextRound songs r0 ?s1))" by simp
      from startNextRound_question [OF this] show ?thesis using StartGame eq(1) by auto
    qed
  qed
next
  case (Answer sid i)
  then show ?thesis using assms
    by (auto simp: answer_def Let_def split: option.splits if_splits)
next
  case (Disconnect sid)
  then show ?thesis using assms
    by (auto simp: disconnect_def Let_def split: option.splits if_splits)
next
  case TimerFire
  show ?thesis
  proof (cases "timers s")
    case Nil then show ?thesis using assms TimerFire by (simp add: timerFire_def)
  next
    case (Cons r0 ts)
    then have "Emit r (Question u opts idx tot) \<in> set (snd (startNextRound songs r0 (s\<lparr>timers := ts\<rparr>)))"
      using assms TimerFire by (simp add: timerFire_def)
    from startNextRound_question [OF this] show ?thesis using TimerFire Cons
      by (auto simp: timerFire_def)
  qed
qed


text \<open>
  C4.  In the events emitted by any sequence of handler calls from the empty registry,
  every \<open>question\<close> event of a room carries as index the number of \<open>question\<close> events
  sent to that room since its last \<open>gameStart\<close>, itself included (so the indices of a
  game are 1, 2, 3, ... in this order), and as total the total of that \<open>gameStart\<close>.
  Moreover, whenever a step emits a \<open>question\<close> event for a room, its index is the
  room's \<open>gameIndex\<close> after the step (the incremented cursor) and its total is the
  length of the room's \<open>gameQuestions\<close>.
\<close>

theorem question_index:
  "questionsOk r (0, 0) (snd (run songs es (init g))) \<and>
   (\<forall>s e u opts idx tot.
      Emit r (Question u opts idx tot) \<in> set (snd (step songs e s)) \<longrightarrow>
      (\<exists>rm'. rooms (fst (step songs e s)) r = Some rm' \<and>
             gameIndex rm' = idx \<and> length (gameQuestions rm') = tot))"
proof -
  have "trackInv r (0, 0) (init g)" by (simp add: trackInv_def init_def)
  from run_track [OF this] step_question show ?thesis by blast
qed

theorem question_index_witness:
  "questionsOk ''R'' (0, 0) (snd (run demoSongs
      [JoinRoom ''a'' ''R'' ''ann'', JoinRoom ''b'' ''R'' ''bob'', StartGame ''a'', Answer ''a'' 3,
       TimerFire, Answer ''b'' 3] (init (\<lambda>_. 0)))) \<and>
   filter (isQuestion ''R'') (snd (run demoSongs
      [JoinRoom ''a'' ''R'' ''ann'', JoinRoom ''b'' ''R'' ''bob'', StartGame ''a'', Answer ''a'' 3,
       TimerFire, Answer ''b'' 3] (init (\<lambda>_. 0)))) =
     [Emit ''R'' (Question ''/audio/B.mp3'' [''C'', ''D'', ''A'', ''B''] 1 4),
      Emit ''R'' (Question ''/audio/C.mp3'' [''B'', ''D'', ''A'', ''C''] 2 4)] \<and>
   (\<exists>rm'. rooms (fst (step demoSongs TimerFire won1)) ''R'' = Some rm' \<and>
          gameIndex rm' = 2 \<and> length (gameQuestions rm') = 4)"
proof -
  have f: "filter (isQuestion ''R'') (snd (run demoSongs
      [JoinRoom ''a'' ''R'' ''ann'', JoinRoom ''b'' ''R'' ''bob'', StartGame ''a'', Answer ''a'' 3,
       TimerFire, Answer ''b'' 3] (init (\<lambda>_. 0)))) =
     [Emit ''R'' (Question ''/audio/B.mp3'' [''C'', ''D'', ''A'', ''B''] 1 4),
      Emit ''R'' (Question ''/audio/C.mp3'' [''B'', ''D'', ''A'', ''C''] 2 4)]"
    by code_simp
  have q: "Emit ''R'' (Question ''/audio/C.mp3'' [''B'', ''D'', ''A'', ''C''] 2 4)
            \<in> set (snd (step demoSongs TimerFire won1))"
    by code_simp
  from question_index [of "''R''" demoSongs
      "[JoinRoom ''a'' ''R'' ''ann'', JoinRoom ''b'' ''R'' ''bob'', StartGame ''a'', Answer ''a'' 3,
        TimerFire, Answer ''b'' 3]" "\<lambda>_. 0"] f q
  show ?thesis by blast
qed


subsection \<open>The end of a game\<close>

lemma startNextRound_exhausted:
  "rooms s r = Some rm \<Longrightarrow> exhausted rm \<Longrightarrow>
     startNextRound songs r s = (s, [Emit r (GameEnd (players rm))])"
  by (simp add: startNextRound_def exhausted_def)

lemma startNextRound_noGameLeft:
  assumes "noGameLeft r s" and "startNextRound songs r0 s = (s', out)"
  shows "noGameLeft r s' \<and> \<not> list_ex (isQuestion r) out"
proof (cases "rooms s r0")
  case None
  then show ?thesis using assms by (simp add: startNextRound_def)
next
  case (Some rm0)
  show ?thesis
  proof (cases "r0 = r")
    case True
    then show ?thesis using assms Some
      by (auto simp: startNextRound_def noGameLeft_def exhausted_def)
  next
    case False
    then show ?thesis using assms Some
      by (auto simp: startNextRound_def noGameLeft_def Let_def split: if_splits prod.splits)
  qed
qed

lemma joinRoom_noGameLeft:
  assumes "noGameLeft r s" and "joinRoom sid r0 nm s = (s', out)"
  shows "noGameLeft r s' \<and> \<not> list_ex (isQuestion r) out"
  using assms
  by (cases "r0 = r")
     (auto simp: joinRoom_def getOrCreateRoom_def newRoom_def noGameLeft_def exhausted_def Let_def
           split: option.splits)

lemma disconnect_noGameLeft:
  assumes "noGameLeft r s" and "disconnect sid s = (s', out)"
  shows "noGameLeft r s' \<and> \<not> list_ex (isQuestion r) out"
  using assms
  by (auto simp: disconnect_def socketRoom_def noGameLeft_def exhausted_def Let_def
           split: option.splits if_splits)

lemma answer_noGameLeft:
  assumes "noGameLeft r s" and "answer sid i s = (s', out)"
  shows "noGameLeft r s' \<and> \<not> list_ex (isQuestion r) out"
  using assms
  by (auto simp: answer_def socketRoom_def noGameLeft_def exhausted_def Let_def
           split: option.splits if_splits)

lemma startGame_noGameLeft:
  assumes "noGameLeft r s" and "startGame songs sid s = (s', out)"
    and "\<not> list_ex (isGameStart r) out"
  shows "noGameLeft r s' \<and> \<not> list_ex (isQuestion r) out"
proof (cases "socketRoom s sid")
  case None then show ?thesis using assms by (simp add: startGame_def)
next
  case (Some p)
  obtain r0 rm0 where p: "p = (r0, rm0)" by (cases p)
  show ?thesis
  proof (cases "hostId rm0 = Some sid")
    case False then show ?thesis using assms Some p by (simp add: startGame_def)
  next
    case True
    obtain shuffled g' where sh: "shuffle songs (rng s) = (shuffled, g')"
      by (cases "shuffle songs (rng s)")
    let ?rm1 = "rm0\<lparr>gameQuestions := take 10 shuffled, gameIndex := 0\<rparr>"
    let ?s1 = "s\<lparr>rooms := (rooms s)(r0 \<mapsto> ?rm1), rng := g'\<rparr>"
    obtain s2 out' where nx: "startNextRound songs r0 ?s1 = (s2, out')"
      by (cases "startNextRound songs r0 ?s1")
    have eq: "s' = s2" "out = Emit r0 (GameStart (length (gameQuestions ?rm1))) # out'"
      using assms(2) Some p True sh nx by (simp_all add: startGame_def Let_def)
    with assms(3) have ne: "r0 \<noteq> r" by auto
    then have "noGameLeft r ?s1" using assms(1) by (simp add: noGameLeft_def)
    from startNextRound_noGameLeft [OF this nx] show ?thesis using eq by simp
  qed
qed

lemma timerFire_noGameLeft:
  assumes "noGameLeft r s" and "timerFire songs s = (s', out)"
  shows "noGameLeft r s' \<and> \<not> list_ex (isQuestion r) out"
proof (cases "timers s")
  case Nil then show ?thesis using assms by (simp add: timerFire_def)
next
  case (Cons r0 ts)
  have 1: "noGameLeft r (s\<lparr>timers := ts\<rparr>)" using assms(1) by (simp add: noGameLeft_def)
  have 2: "startNextRound songs r0 (s\<lparr>timers := ts\<rparr>) = (s', out)"
    using assms(2) Cons by (simp add: timerFire_def)
  from 1 2 show ?thesis by (rule startNextRound_noGameLeft)
qed

lemma step_noGameLeft:
  assumes "noGameLeft r s" and "step songs e s = (s', out)"
    and "\<not> list_ex (isGameStart r) out"
  shows "noGameLeft r s' \<and> \<not> list_ex (isQuestion r) out"
proof (cases e)
  case (JoinRoom sid r0 nm)
  then show ?thesis using assms joinRoom_noGameLeft by simp
next
  case (StartGame sid)
  then show ?thesis using assms startGame_noGameLeft by simp
next
  case (Answer sid i)
  then show ?thesis using assms answer_noGameLeft by simp
next
  case (Disconnect sid)
  then show ?thesis using assms disconnect_noGameLeft by simp
next
  case TimerFire
  then show ?thesis using assms timerFire_noGameLeft by simp
qed

lemma run_noGameLeft:
  "noGameLeft r s \<Longrightarrow> \<not> list_ex (isGameStart r) (snd (run songs es s)) \<Longrightarrow>
     \<not> list_ex (isQuestion r) (snd (run songs es s))"
proof (induction es arbitrary: s)
  case Nil
  then show ?case by simp
next
  case (Cons e es)
  obtain s1 o1 where st: "step songs e s = (s1, o1)" by (cases "step songs e s")
  have out: "snd (run songs (e # es) s) = o1 @ snd (run songs es s1)"
    using st by (simp add: split_beta Let_def)
  from Cons.prems(2) have g1: "\<not> list_ex (isGameStart r) o1"
    and g2: "\<not> list_ex (isGameStart r) (snd (run songs es s1))"
    unfolding out by (auto simp: list_ex_iff)
  from step_noGameLeft [OF Cons.prems(1) st g1]
  have 1: "noGameLeft r s1" and 2: "\<not> list_ex (isQuestion r) o1" by simp_all
  from Cons.IH [OF 1 g2] 2 show ?case unfolding out by (auto simp: list_ex_iff)
qed

lemma shuffle_length: "length (fst (shuffle arr g)) = length arr"
  using shuffle_mset [of arr g] by (rule mset_eq_length)

lemma startGame_accepted:
  assumes "socketData s h = Some r" and "rooms s r = Some rm" and "hostId rm = Some h"
  shows "\<exists>out. snd (startGame songs h s) = Emit r (GameStart (min 10 (length songs))) # out"
proof -
  have sr: "socketRoom s h = Some (r, rm)" using assms(1,2) by (simp add: socketRoom_def)
  obtain shuffled g' where sh: "shuffle songs (rng s) = (shuffled, g')"
    by (cases "shuffle songs (rng s)")
  have "length shuffled = length songs" using shuffle_length [of songs "rng s"] sh by simp
  then show ?thesis using sr assms(3) sh
    by (simp add: startGame_def Let_def split_beta min.commute)
qed

lemma joinRoom_hasEntry_self: "hasEntry (fst (joinRoom sid r nm s)) r sid"
  by (auto simp: joinRoom_def getOrCreateRoom_def hasEntry_def Let_def update_conv'
      split: option.splits)


text \<open>
  C5, as the code has it.  Once a room's \<open>gameIndex\<close> has reached the length of its
  \<open>gameQuestions\<close>: every round advance for the room emits exactly one
  \<open>gameEnd {players}\<close> and changes nothing (for the timer event: nothing but the fired
  timer); whatever events follow, as long as no \<open>gameStart\<close> is emitted to the room, no
  \<open>question\<close> event is emitted to it; a \<open>joinRoom\<close> for the room still gives the joining
  socket its entry; and a \<open>startGame\<close> of the room's host is accepted, it emits
  \<open>gameStart\<close> with the new total.
\<close>

theorem exhausted_game:
  assumes "rooms s r = Some rm" and "exhausted rm"
  shows "startNextRound songs r s = (s, [Emit r (GameEnd (players rm))])
    \<and> (\<forall>ts. timers s = r # ts \<longrightarrow>
          timerFire songs s = (s\<lparr>timers := ts\<rparr>, [Emit r (GameEnd (players rm))]))
    \<and> (\<forall>es. \<not> list_ex (isGameStart r) (snd (run songs es s)) \<longrightarrow>
          \<not> list_ex (isQuestion r) (snd (run songs es s)))
    \<and> (\<forall>sid nm. hasEntry (fst (joinRoom sid r nm s)) r sid)
    \<and> (\<forall>h. socketData s h = Some r \<and> hostId rm = Some h \<longrightarrow>
          (\<exists>out. snd (startGame songs h s) = Emit r (GameStart (min 10 (length songs))) # out))"
proof -
  have 1: "startNextRound songs r s = (s, [Emit r (GameEnd (players rm))])"
    using assms by (rule startNextRound_exhausted)
  have 2: "timerFire songs s = (s\<lparr>timers := ts\<rparr>, [Emit r (GameEnd (players rm))])"
    if "timers s = r # ts" for ts
    using that startNextRound_exhausted [of "s\<lparr>timers := ts\<rparr>" r rm songs] assms
    by (simp add: timerFire_def)
  have "noGameLeft r s" using assms by (simp add: noGameLeft_def)
  then have 3: "\<not> list_ex (isQuestion r) (snd (run songs es s))"
    if "\<not> list_ex (isGameStart r) (snd (run songs es s))" for es
    using that by (rule run_noGameLeft)
  from 1 2 3 joinRoom_hasEntry_self startGame_accepted [OF _ assms(1)] show ?thesis by blast
qed

theorem exhausted_game_witness:
  "map_option exhausted (rooms finished ''R'') = Some True \<and>
   startNextRound oneSong ''R'' finished =
     (finished, [Emit ''R'' (GameEnd [(''a'', \<lparr>name = ''ann'', score = 1\<rparr>)])]) \<and>
   \<not> list_ex (isQuestion ''R'')
       (snd (run oneSong [Answer ''a'' 0, JoinRoom ''b'' ''R'' ''bob'', TimerFire] finished)) \<and>
   hasEntry (fst (joinRoom ''b'' ''R'' ''bob'' finished)) ''R'' ''b'' \<and>
   (\<exists>out. snd (startGame oneSong ''a'' finished) = Emit ''R'' (GameStart 1) # out)"
proof -
  have e: "map_option exhausted (rooms finished ''R'') = Some True" by code_simp
  then obtain rm where rm: "rooms finished ''R'' = Some rm" "exhausted rm" by auto
  have "map_option players (rooms finished ''R'') = Some [(''a'', \<lparr>name = ''ann'', score = 1\<rparr>)]"
    by code_simp
  then have p: "players rm = [(''a'', \<lparr>name = ''ann'', score = 1\<rparr>)]" using rm by simp
  have "map_option hostId (rooms finished ''R'') = Some (Some ''a'')" by code_simp
  then have h: "hostId rm = Some ''a''" using rm by simp
  have sd: "socketData finished ''a'' = Some ''R''" by code_simp
  have g: "\<not> list_ex (isGameStart ''R'')
       (snd (run oneSong [Answer ''a'' 0, JoinRoom ''b'' ''R'' ''bob'', TimerFire] finished))"
    by code_simp
  have m: "min 10 (length oneSong) = 1" by code_simp
  from exhausted_game [OF rm, of oneSong] e p h sd g m show ?thesis
    by (simp del: run.simps)
qed


text \<open>
  C5 as stated fails: \<open>gameEnd\<close> is emitted once per fired timer, not once per game.  In
  the state below the second game of the room is exhausted and two timers are pending (one
  from each game); both fire and each emits \<open>gameEnd\<close>.
\<close>

theorem two_gameEnd_events:
  "map_option exhausted (rooms replayed ''R'') = Some True \<and>
   timers replayed = [''R'', ''R''] \<and>
   snd (run oneSong [TimerFire, TimerFire] replayed) =
     [Emit ''R'' (GameEnd [(''a'', \<lparr>name = ''ann'', score = 2\<rparr>)]),
      Emit ''R'' (GameEnd [(''a'', \<lparr>name = ''ann'', score = 2\<rparr>)])]"
  by code_simp

end
